theory Spec2Isabelle
  imports Complex_Main "HOL-Library.Word"
begin

unbundle bit_operations_syntax

section \<open>Machine types\<close>

type_synonym u8 = "8 word"
type_synonym u16 = "16 word"
type_synonym u32 = "32 word"

text \<open>
  Go's \<^verbatim>\<open>int\<close> is 64 bits wide (as on amd64 and arm64) and is modelled by \<open>int\<close>, a
  value of the type being an \<open>int\<close> from \<open>- (2 ^ 63)\<close> to \<open>2 ^ 63 - 1\<close>. The conversions
  \<^verbatim>\<open>byte(_)\<close> and \<^verbatim>\<open>uint16(_)\<close> keep the low bits, so they give the same byte whether or
  not the subtraction before them has wrapped. The counters of the loops of \<^verbatim>\<open>Draw\<close> stay
  in the range for a width of at most \<open>2 ^ 63 - 8\<close>. Where a result can leave the range
  and is compared, in \<^verbatim>\<open>Rectangle.Size\<close>, the wrap-around is written out with \<open>wrap64\<close>.
\<close>

definition wrap64 :: "int \<Rightarrow> int" where
  "wrap64 k = sint (word_of_int k :: 64 word)"

section \<open>The transport: pins, the SPI transmitter and the clock\<close>

text \<open>
  The driver only consumes three capabilities: \<^verbatim>\<open>WriteablePin\<close> (\<^verbatim>\<open>High\<close>, \<^verbatim>\<open>Low\<close>),
  \<^verbatim>\<open>ReadablePin\<close> (\<^verbatim>\<open>Read\<close>) and \<^verbatim>\<open>Transmit\<close>. A pin is modelled by its identity
  (type \<open>'w\<close> for writeable pins, \<open>'r\<close> for readable pins, \<open>'t\<close> for transmitters) and
  every call on it is recorded, in order, as an event. \<^verbatim>\<open>time.Sleep\<close> is recorded with
  its duration in milliseconds.
\<close>

datatype ('w, 'r, 't) event =
    High 'w
  | Low 'w
  | Read 'r u8
  | Transmit 't "u8 list"
  | TimeSleep nat

text \<open>
  The world outside the driver: the events so far, the samples the busy line will show
  (\<open>busy_line w n\<close> is what the \<open>n\<close>-th call of \<^verbatim>\<open>Read\<close> returns) and the number of
  reads done so far.
\<close>

record ('w, 'r, 't) world =
  trace :: "('w, 'r, 't) event list"
  busy_line :: "nat \<Rightarrow> u8"
  reads :: nat

definition emit :: "('w, 'r, 't) event \<Rightarrow> ('w, 'r, 't) world \<Rightarrow> ('w, 'r, 't) world" where
  "emit ev w = w\<lparr>trace := trace w @ [ev]\<rparr>"

definition pin_Read :: "'r \<Rightarrow> ('w, 'r, 't) world \<Rightarrow> u8 \<times> ('w, 'r, 't) world" where
  "pin_Read p w =
     (let v = busy_line w (reads w)
      in (v, (emit (Read p v) w)\<lparr>reads := Suc (reads w)\<rparr>))"

section \<open>The driver\<close>

text \<open>
  \<^verbatim>\<open>src/epd.go\<close>: the type \<^verbatim>\<open>Mode\<close> is a \<^verbatim>\<open>uint8\<close> with the two named values (lines 17 and
  37 to 40); the lookup tables are lines 43 to 58, the struct \<^verbatim>\<open>EPD\<close> and \<^verbatim>\<open>New\<close> lines 61
  to 79, and \<^verbatim>\<open>reset\<close>, \<^verbatim>\<open>command\<close>, \<^verbatim>\<open>data\<close> and \<^verbatim>\<open>idle\<close> lines 82 to 112.
\<close>

type_synonym Mode = u8

definition FullUpdate :: Mode where
  "FullUpdate = 0"

definition PartialUpdate :: Mode where
  "PartialUpdate = 1"

definition fullUpdate :: "u8 list" where
  "fullUpdate =
     [0x50, 0xAA, 0x55, 0xAA, 0x11, 0x00,
      0x00, 0x00, 0x00, 0x00, 0x00, 0x00,
      0x00, 0x00, 0x00, 0x00, 0x00, 0x00,
      0x00, 0x00, 0xFF, 0xFF, 0x1F, 0x00,
      0x00, 0x00, 0x00, 0x00, 0x00, 0x00]"

definition partialUpdate :: "u8 list" where
  "partialUpdate =
     [0x10, 0x18, 0x18, 0x08, 0x18, 0x18,
      0x08, 0x00, 0x00, 0x00, 0x00, 0x00,
      0x00, 0x00, 0x00, 0x00, 0x00, 0x00,
      0x00, 0x00, 0x13, 0x14, 0x44, 0x12,
      0x00, 0x00, 0x00, 0x00, 0x00, 0x00]"

record ('w, 'r, 't) EPD =
  Height :: int
  Width :: int
  rst :: 'w
  dc :: 'w
  cs :: 'w
  busy :: 'r
  transmit :: 't

definition New :: "'w \<Rightarrow> 'w \<Rightarrow> 'w \<Rightarrow> 'r \<Rightarrow> 't \<Rightarrow> ('w, 'r, 't) EPD" where
  "New rst_pin dc_pin cs_pin busy_pin transmit_fn =
     \<lparr>Height = 296, Width = 128, rst = rst_pin, dc = dc_pin, cs = cs_pin, busy = busy_pin,
      transmit = transmit_fn\<rparr>"

definition reset :: "('w, 'r, 't) EPD \<Rightarrow> ('w, 'r, 't) world \<Rightarrow> ('w, 'r, 't) world" where
  "reset e w =
     (let w = emit (High (rst e)) w;
          w = emit (TimeSleep 200) w;
          w = emit (Low (rst e)) w;
          w = emit (TimeSleep 10) w;
          w = emit (High (rst e)) w;
          w = emit (TimeSleep 200) w
      in w)"

definition command :: "('w, 'r, 't) EPD \<Rightarrow> u8 \<Rightarrow> ('w, 'r, 't) world \<Rightarrow> ('w, 'r, 't) world" where
  "command e c w =
     (let w = emit (Low (dc e)) w;
          w = emit (Low (cs e)) w;
          w = emit (Transmit (transmit e) [c]) w;
          w = emit (High (cs e)) w
      in w)"

definition data :: "('w, 'r, 't) EPD \<Rightarrow> u8 \<Rightarrow> ('w, 'r, 't) world \<Rightarrow> ('w, 'r, 't) world" where
  "data e d w =
     (let w = emit (High (dc e)) w;
          w = emit (Low (cs e)) w;
          w = emit (Transmit (transmit e) [d]) w;
          w = emit (High (cs e)) w
      in w)"

text \<open>
  \<^verbatim>\<open>idle\<close> polls the busy line until it reads something other than 1. The loop has no
  bound: on a line that stays busy it never returns, which is the value \<open>None\<close>.
\<close>

partial_function (option) idle ::
  "('w, 'r, 't) EPD \<Rightarrow> ('w, 'r, 't) world \<Rightarrow> ('w, 'r, 't) world option" where
  [code]: "idle e w =
     (case pin_Read (busy e) w of
        (v, w1) \<Rightarrow> if v = 0x1 then idle e (emit (TimeSleep 200) w1) else Some w1)"

text \<open>\<^verbatim>\<open>Sleep\<close>, \<^verbatim>\<open>turnOnDisplay\<close>, \<^verbatim>\<open>window\<close> and \<^verbatim>\<open>cursor\<close> (lines 167 to 204).\<close>

definition Sleep :: "('w, 'r, 't) EPD \<Rightarrow> ('w, 'r, 't) world \<Rightarrow> ('w, 'r, 't) world" where
  "Sleep e w =
     (let w = command e 0x10 w;
          w = data e 0x01 w
      in w)"

definition turnOnDisplay ::
  "('w, 'r, 't) EPD \<Rightarrow> ('w, 'r, 't) world \<Rightarrow> ('w, 'r, 't) world option" where
  "turnOnDisplay e w =
     (let w = command e 0x22 w;
          w = data e 0xC4 w;
          w = command e 0x20 w;
          w = command e 0xFF w
      in idle e w)"

definition window ::
  "('w, 'r, 't) EPD \<Rightarrow> u8 \<Rightarrow> u8 \<Rightarrow> u16 \<Rightarrow> u16 \<Rightarrow> ('w, 'r, 't) world \<Rightarrow> ('w, 'r, 't) world" where
  "window e x0 x1 y0 y1 w =
     (let w = command e 0x44 w;
          w = data e ((drop_bit 3 x0) AND 0xFF) w;
          w = data e ((drop_bit 3 x1) AND 0xFF) w;
          w = command e 0x45 w;
          w = data e (ucast (y0 AND 0xFF)) w;
          w = data e (ucast ((drop_bit 8 y0) AND 0xFF)) w;
          w = data e (ucast (y1 AND 0xFF)) w;
          w = data e (ucast ((drop_bit 8 y1) AND 0xFF)) w
      in w)"

definition cursor ::
  "('w, 'r, 't) EPD \<Rightarrow> u8 \<Rightarrow> u16 \<Rightarrow> ('w, 'r, 't) world \<Rightarrow> ('w, 'r, 't) world option" where
  "cursor e x y w =
     (let w = command e 0x4E w;
          w = data e ((drop_bit 3 x) AND 0xFF) w;
          w = command e 0x4F w;
          w = data e (ucast (y AND 0xFF)) w;
          w = data e (ucast ((drop_bit 8 y) AND 0xFF)) w
      in idle e w)"

text \<open>\<^verbatim>\<open>Mode\<close> (lines 119 to 161).\<close>

text \<open>The loop \<^verbatim>\<open>for _, b := range lut { epd.data(b) }\<close> of \<^verbatim>\<open>Mode\<close>.\<close>

fun data_range :: "('w, 'r, 't) EPD \<Rightarrow> u8 list \<Rightarrow> ('w, 'r, 't) world \<Rightarrow> ('w, 'r, 't) world" where
  "data_range e [] w = w"
| "data_range e (b # lut) w = data_range e lut (data e b w)"

text \<open>
  \<^verbatim>\<open>Height\<close> is a Go \<^verbatim>\<open>int\<close>: \<^verbatim>\<open>&\<close> is the two's complement conjunction, \<^verbatim>\<open>>>\<close> the
  arithmetic shift, and \<^verbatim>\<open>byte(_)\<close> keeps the low eight bits.
\<close>

definition Mode :: "('w, 'r, 't) EPD \<Rightarrow> Mode \<Rightarrow> ('w, 'r, 't) world \<Rightarrow> ('w, 'r, 't) world" where
  "Mode e mode w =
     (let w = reset e w;
          w = command e 0x01 w;
          w = data e (of_int ((Height e - 1) AND 0xFF)) w;
          w = data e (of_int ((drop_bit 8 (Height e - 1)) AND 0xFF)) w;
          w = data e 0x00 w;
          w = command e 0x0C w;
          w = data e 0xD7 w;
          w = data e 0xD6 w;
          w = data e 0x9D w;
          w = command e 0x2C w;
          w = data e 0xA8 w;
          w = command e 0x3A w;
          w = data e 0x1A w;
          w = command e 0x3B w;
          w = data e 0x08 w;
          w = command e 0x11 w;
          w = data e 0x03 w;
          w = command e 0x32 w;
          lut = (if mode = PartialUpdate then partialUpdate else fullUpdate)
      in data_range e lut w)"

section \<open>Colors and images\<close>

text \<open>
  A \<^verbatim>\<open>color.Color\<close> is an interface value: a dynamic type together with a value of it.
  \<open>Gray16\<close> and \<open>RGBA\<close> are the standard library's types of these names; \<open>Custom\<close>
  stands for a value of any other implementation, given by the four samples its
  \<^verbatim>\<open>RGBA\<close> method returns. Two interface values are equal only if their dynamic types are
  the same, which is the equality of this datatype.
\<close>

datatype color =
    Gray16 u16
  | RGBA u8 u8 u8 u8
  | Custom u32 u32 u32 u32

definition Black :: color where
  "Black = Gray16 0"

definition White :: color where
  "White = Gray16 0xffff"

text \<open>The \<^verbatim>\<open>RGBA\<close> method, as \<^verbatim>\<open>image/color\<close> defines it for each type.\<close>

fun color_RGBA :: "color \<Rightarrow> u32 \<times> u32 \<times> u32 \<times> u32" where
  "color_RGBA (Gray16 y) = (ucast y, ucast y, ucast y, 0xffff)"
| "color_RGBA (RGBA r g b a) =
     (ucast r OR push_bit 8 (ucast r), ucast g OR push_bit 8 (ucast g),
      ucast b OR push_bit 8 (ucast b), ucast a OR push_bit 8 (ucast a))"
| "color_RGBA (Custom r g b a) = (r, g, b, a)"

record Point =
  X :: int
  Y :: int

record Rectangle =
  Min_pt :: Point
  Max_pt :: Point

text \<open>
  \<^verbatim>\<open>Rectangle.Size\<close> of the package \<^verbatim>\<open>image\<close>: the two differences, computed on \<^verbatim>\<open>int\<close>.
\<close>

definition Size :: "Rectangle \<Rightarrow> Point" where
  "Size r =
     \<lparr>X = wrap64 (X (Max_pt r) - X (Min_pt r)), Y = wrap64 (Y (Max_pt r) - Y (Min_pt r))\<rparr>"

text \<open>
  An \<^verbatim>\<open>image.Image\<close> is either a \<^verbatim>\<open>*image.Uniform\<close> of one color, or a value of any
  other implementation, given by its \<^verbatim>\<open>Bounds\<close> and its \<^verbatim>\<open>At\<close>.
\<close>

datatype image =
    Uniform color
  | Raster Rectangle "int \<Rightarrow> int \<Rightarrow> color"

fun Bounds :: "image \<Rightarrow> Rectangle" where
  "Bounds (Uniform c) =
     \<lparr>Min_pt = \<lparr>X = - 1000000000, Y = - 1000000000\<rparr>,
      Max_pt = \<lparr>X = 1000000000, Y = 1000000000\<rparr>\<rparr>"
| "Bounds (Raster r f) = r"

fun At :: "image \<Rightarrow> int \<Rightarrow> int \<Rightarrow> color" where
  "At (Uniform c) x y = c"
| "At (Raster r f) x y = f x y"

fun is_Uniform :: "image \<Rightarrow> bool" where
  "is_Uniform (Uniform c) = True"
| "is_Uniform (Raster r f) = False"

definition image_Black :: image where
  "image_Black = Uniform Black"

definition image_White :: image where
  "image_White = Uniform White"

section \<open>Drawing\<close>

text \<open>\<^verbatim>\<open>Draw\<close> (lines 216 to 242) and \<^verbatim>\<open>Clear\<close> (lines 207 to 213).\<close>

datatype error = ErrInvalidImageSize

text \<open>
  \<^verbatim>\<open>isdark\<close> is a pure function of its four \<^verbatim>\<open>uint32\<close> arguments, computed in 64-bit
  floating point. The drawing code only uses its result: the drawing functions take the
  classifier as a parameter, and the one of the source is modelled after them.
\<close>

type_synonym classifier = "u32 \<Rightarrow> u32 \<Rightarrow> u32 \<Rightarrow> u32 \<Rightarrow> bool"

definition dark_at :: "classifier \<Rightarrow> image \<Rightarrow> int \<Rightarrow> int \<Rightarrow> bool" where
  "dark_at isdark img x y = (case color_RGBA (At img x y) of (r, g, b, a) \<Rightarrow> isdark r g b a)"

text \<open>
  The innermost loop, \<^verbatim>\<open>for px := 0; px < 8; px++\<close>, on the Go \<^verbatim>\<open>int\<close> \<open>b\<close>.
\<close>

function pixels :: "classifier \<Rightarrow> image \<Rightarrow> int \<Rightarrow> int \<Rightarrow> int \<Rightarrow> int \<Rightarrow> int" where
  "pixels isdark img i j px b =
     (if px < 8
      then pixels isdark img i j (px + 1)
             (if dark_at isdark img (j + px) i
              then b AND NOT (drop_bit (nat (px mod 8)) 0x80)
              else b)
      else b)"
  by pat_completeness auto
termination
  by (relation "measure (\<lambda>(isdark, img, i, j, px, b). nat (8 - px))") auto

text \<open>The loop \<^verbatim>\<open>for j := 0; j < epd.Width; j += 8\<close>.\<close>

function columns ::
  "classifier \<Rightarrow> ('w, 'r, 't) EPD \<Rightarrow> image \<Rightarrow> int \<Rightarrow> int \<Rightarrow> ('w, 'r, 't) world \<Rightarrow> ('w, 'r, 't) world" where
  "columns isdark e img i j w =
     (if j < Width e
      then columns isdark e img i (j + 8) (data e (of_int (pixels isdark img i j 0 0xFF)) w)
      else w)"
  by pat_completeness auto
termination
  by (relation "measure (\<lambda>(isdark, e, img, i, j, w). nat (Width e - j))") auto

text \<open>The loop \<^verbatim>\<open>for i := 0; i < epd.Height; i++\<close>.\<close>

function rows ::
  "classifier \<Rightarrow> ('w, 'r, 't) EPD \<Rightarrow> image \<Rightarrow> int \<Rightarrow> ('w, 'r, 't) world \<Rightarrow> ('w, 'r, 't) world option" where
  "rows isdark e img i w =
     (if i < Height e
      then (case cursor e 0 (of_int i) w of
              None \<Rightarrow> None
            | Some w \<Rightarrow>
                rows isdark e img (i + 1) (columns isdark e img i 0 (command e 0x24 w)))
      else Some w)"
  by pat_completeness auto
termination
  by (relation "measure (\<lambda>(isdark, e, img, i, w). nat (Height e - i))") auto

text \<open>
  \<^verbatim>\<open>Draw\<close> returns the error (or \<^verbatim>\<open>nil\<close>, here \<open>None\<close>) and the world it leaves; the
  outer \<open>option\<close> is \<open>None\<close> when a busy wait never ends.
\<close>

definition Draw ::
  "classifier \<Rightarrow> ('w, 'r, 't) EPD \<Rightarrow> image \<Rightarrow> ('w, 'r, 't) world
     \<Rightarrow> (error option \<times> ('w, 'r, 't) world) option" where
  "Draw isdark e img w =
     (let isvertical = (X (Size (Bounds img)) = Width e \<and> Y (Size (Bounds img)) = Height e);
          uniform = is_Uniform img
      in if \<not> uniform \<and> \<not> isvertical then Some (Some ErrInvalidImageSize, w)
         else (let w = window e 0 (of_int (Width e - 1)) 0 (of_int (Height e - 1)) w
               in case rows isdark e img 0 w of
                    None \<Rightarrow> None
                  | Some w \<Rightarrow>
                      (case turnOnDisplay e w of
                         None \<Rightarrow> None
                       | Some w \<Rightarrow> Some (None, w))))"

text \<open>\<^verbatim>\<open>Clear\<close> has no result: what \<^verbatim>\<open>Draw\<close> returns is dropped, the world is kept.\<close>

definition Clear ::
  "classifier \<Rightarrow> ('w, 'r, 't) EPD \<Rightarrow> color \<Rightarrow> ('w, 'r, 't) world \<Rightarrow> ('w, 'r, 't) world option" where
  "Clear isdark e c w =
     (let img = (if c \<noteq> White then image_Black else image_White)
      in case Draw isdark e img w of
           None \<Rightarrow> None
         | Some (_, w) \<Rightarrow> Some w)"

section \<open>The darkness of a pixel\<close>

text \<open>
  \<^verbatim>\<open>isdark\<close> (lines 246 to 251) computes in \<^verbatim>\<open>float64\<close>. The conversion of a \<^verbatim>\<open>uint32\<close> is
  exact. Each of the other twelve operations (the three constants, the three calls of
  \<^verbatim>\<open>math.Pow\<close>, the three products, the two sums from left to right and \<^verbatim>\<open>math.Sqrt\<close>)
  gives the real result rounded; \<open>rnd n\<close> is the rounding at the \<open>n\<close>-th of them. Every
  operation has a rounding of its own, so that one whose result is not rounded because
  the compiler has fused it with the next is covered too, by the identity.
\<close>

definition weighted_sqrt :: "(nat \<Rightarrow> real \<Rightarrow> real) \<Rightarrow> u32 \<Rightarrow> u32 \<Rightarrow> u32 \<Rightarrow> real" where
  "weighted_sqrt rnd r g b =
     rnd 11 (sqrt (rnd 10 (rnd 9 (
         rnd 6 (rnd 0 0.299 * rnd 3 ((real (unat r)) ^ 2)) +
         rnd 7 (rnd 1 0.587 * rnd 4 ((real (unat g)) ^ 2))) +
         rnd 8 (rnd 2 0.114 * rnd 5 ((real (unat b)) ^ 2)))))"

text \<open>
  Named \<open>isdark_fp\<close>, as \<open>isdark\<close> names the classifier the drawing functions are given;
  the classifier of the source is \<open>isdark_fp rnd\<close>.
\<close>

definition isdark_fp :: "(nat \<Rightarrow> real \<Rightarrow> real) \<Rightarrow> u32 \<Rightarrow> u32 \<Rightarrow> u32 \<Rightarrow> u32 \<Rightarrow> bool" where
  "isdark_fp rnd r g b a = (weighted_sqrt rnd r g b \<le> 130)"

text \<open>
  What is assumed of the roundings: at 0 and from \<open>1 / 32\<close> to \<open>2 ^ 70\<close>, where all the
  values of this computation lie and \<^verbatim>\<open>float64\<close> has 53 significant bits, the relative
  error is at most \<open>2 ^ - 40\<close>.
\<close>

definition accurate :: "(nat \<Rightarrow> real \<Rightarrow> real) \<Rightarrow> bool" where
  "accurate rnd \<longleftrightarrow>
     (\<forall>n x. x = 0 \<or> (1 / 32 \<le> x \<and> x \<le> 2 ^ 70) \<longrightarrow> \<bar>rnd n x - x\<bar> \<le> x / 2 ^ 40)"

text \<open>
  For the error analysis: \<open>approx k y t\<close> says that \<open>y\<close> is the exact value \<open>t\<close> up to \<open>k\<close>
  roundings.
\<close>

definition lo_f :: real where
  "lo_f = 1 - 1 / 2 ^ 40"

definition hi_f :: real where
  "hi_f = 1 + 1 / 2 ^ 40"

definition approx :: "nat \<Rightarrow> real \<Rightarrow> real \<Rightarrow> bool" where
  "approx k y t \<longleftrightarrow> t * lo_f ^ k \<le> y \<and> y \<le> t * hi_f ^ k"

section \<open>Reading the trace\<close>

text \<open>
  What one call of \<^verbatim>\<open>command\<close> and of \<^verbatim>\<open>data\<close> leaves in the trace: the byte is sent with
  chip select low, and the data/command line is low for a command, high for data.
\<close>

definition command_frame :: "('w, 'r, 't) EPD \<Rightarrow> u8 \<Rightarrow> ('w, 'r, 't) event list" where
  "command_frame e c = [Low (dc e), Low (cs e), Transmit (transmit e) [c], High (cs e)]"

definition data_frame :: "('w, 'r, 't) EPD \<Rightarrow> u8 \<Rightarrow> ('w, 'r, 't) event list" where
  "data_frame e d = [High (dc e), Low (cs e), Transmit (transmit e) [d], High (cs e)]"

text \<open>
  One busy wait that found the line busy \<open>k\<close> times and then read \<open>v\<close>: \<open>k\<close> polls that
  return 1, each followed by a sleep of 200 ms, and the poll that returns \<open>v\<close>.
\<close>

definition idle_wait :: "('w, 'r, 't) EPD \<Rightarrow> nat \<Rightarrow> u8 \<Rightarrow> ('w, 'r, 't) event list" where
  "idle_wait e k v = concat (replicate k [Read (busy e) 1, TimeSleep 200]) @ [Read (busy e) v]"

text \<open>The bytes handed to the transmitter, in order.\<close>

fun transmitted :: "('w, 'r, 't) event list \<Rightarrow> u8 list" where
  "transmitted [] = []"
| "transmitted (Transmit t bs # evs) = bs @ transmitted evs"
| "transmitted (ev # evs) = transmitted evs"

definition emits :: "('w, 'r, 't) world \<Rightarrow> ('w, 'r, 't) event list \<Rightarrow> ('w, 'r, 't) world" where
  "emits w evs = w\<lparr>trace := trace w @ evs\<rparr>"

text \<open>
  The events of row \<open>i\<close> of a frame: the cursor set to \<open>(0, i)\<close>, its busy wait \<open>p\<close>,
  \<^verbatim>\<open>WRITE_RAM\<close>, and one data byte for each group of eight pixels.
\<close>

abbreviation row_frames ::
  "classifier \<Rightarrow> ('w, 'r, 't) EPD \<Rightarrow> image \<Rightarrow> nat \<Rightarrow> nat \<times> u8 \<Rightarrow> ('w, 'r, 't) event list" where
  "row_frames isdark e img i p \<equiv>
     command_frame e 0x4E @ data_frame e 0 @ command_frame e 0x4F @
     data_frame e (of_nat i) @ data_frame e (of_nat (i div 256)) @
     idle_wait e (fst p) (snd p) @
     command_frame e 0x24 @
     concat (map (\<lambda>c. data_frame e (of_int (pixels isdark img (int i) (8 * int c) 0 0xFF)))
                 [0..<nat (Width e div 8)])"

section \<open>Example values\<close>

text \<open>A panel of 8 by 2 pixels on the pins of a Raspberry Pi, and a busy line that is never busy.\<close>

definition small_panel :: "(nat, nat, unit) EPD" where
  "small_panel = \<lparr>Height = 2, Width = 8, rst = 17, dc = 25, cs = 8, busy = 24, transmit = ()\<rparr>"

definition quiet_world :: "(nat, nat, unit) world" where
  "quiet_world = \<lparr>trace = [], busy_line = (\<lambda>n. 0), reads = 0\<rparr>"

text \<open>A classifier that calls a pixel dark when its red sample is below half of the range.\<close>

definition red_below_half :: classifier where
  "red_below_half r g b a = (r < 0x8000)"

section \<open>Basic facts\<close>

declare pixels.simps [simp del] columns.simps [simp del] rows.simps [simp del]

lemma emits_emits: "emits (emits w a) b = emits w (a @ b)"
  by (simp add: emits_def)

lemma emits_Nil: "emits w [] = w"
  by (simp add: emits_def)

lemma command_emits: "command e c w = emits w (command_frame e c)"
  by (simp add: command_def command_frame_def emit_def emits_def)

lemma data_emits: "data e d w = emits w (data_frame e d)"
  by (simp add: data_def data_frame_def emit_def emits_def)

lemma reset_emits:
  "reset e w = emits w [High (rst e), TimeSleep 200, Low (rst e), TimeSleep 10, High (rst e), TimeSleep 200]"
  by (simp add: reset_def emit_def emits_def)

lemma data_range_emits: "data_range e lut w = emits w (concat (map (data_frame e) lut))"
  by (induction lut arbitrary: w) (simp_all add: data_emits emits_emits emits_Nil)

lemma byte_mask: "(x :: u8) AND 0xFF = x"
proof -
  have "(0xFF :: u8) = - 1" by simp
  then show ?thesis by (simp only: and.right_neutral) 
qed

lemma ucast_mask16: "(ucast ((y :: u16) AND 0xFF) :: u8) = ucast y"
proof -
  have "(0xFF :: u16) = mask 8" by (simp add: mask_eq_exp_minus_1)
  show ?thesis unfolding \<open>(0xFF :: u16) = mask 8\<close>
    by (rule bit_word_eqI) (auto simp add: bit_simps)
qed

lemma window_emits:
  "window e x0 x1 y0 y1 w = emits w
     (command_frame e 0x44 @ data_frame e (drop_bit 3 x0) @ data_frame e (drop_bit 3 x1) @
      command_frame e 0x45 @ data_frame e (ucast y0) @ data_frame e (ucast (drop_bit 8 y0)) @
      data_frame e (ucast y1) @ data_frame e (ucast (drop_bit 8 y1)))"
  by (simp add: window_def command_emits data_emits emits_emits byte_mask ucast_mask16 del: and_minus_numerals)

lemma le16: "unat (ucast (y::u16) :: u8) + 256 * unat (ucast (drop_bit 8 y) :: u8) = unat y"
proof -
  have "unat y < 65536" using unsigned_less [of y, where ?'a = nat] by simp
  then show ?thesis
    by (simp add: unsigned_ucast_eq unat_drop_bit_eq take_bit_eq_mod drop_bit_eq_div unat_div)
qed

lemma shift3: "unat (drop_bit 3 (x::u8)) = unat x div 8"
  by (subst unat_drop_bit_eq) (simp add: drop_bit_eq_div)

lemma emits_fields [simp]:
  "trace (emits w evs) = trace w @ evs"
  "reads (emits w evs) = reads w"
  "busy_line (emits w evs) = busy_line w"
  by (simp_all add: emits_def)

lemma reads_trace_update [simp]:
  "w\<lparr>reads := r, trace := t\<rparr> = w\<lparr>trace := t, reads := r\<rparr>"
  by (cases w) simp

lemma idle_wait_0: "idle_wait e 0 v = [Read (busy e) v]"
  by (simp add: idle_wait_def)

lemma idle_wait_Suc:
  "idle_wait e (Suc k) v = Read (busy e) 1 # TimeSleep 200 # idle_wait e k v"
  by (simp add: idle_wait_def)

lemma idle_unfold:
  "idle e w =
     (if busy_line w (reads w) = 1
      then idle e ((emits w [Read (busy e) 1, TimeSleep 200])\<lparr>reads := Suc (reads w)\<rparr>)
      else Some ((emits w [Read (busy e) (busy_line w (reads w))])\<lparr>reads := Suc (reads w)\<rparr>))"
  by (subst idle.simps) (simp add: pin_Read_def emit_def emits_def Let_def)

lemma idle_Some:
  assumes "idle e w = Some w'"
  shows "\<exists>k v. v \<noteq> 1 \<and> w' = (emits w (idle_wait e k v))\<lparr>reads := reads w + k + 1\<rparr>"
proof (rule idle.raw_induct [OF _ assms])
  fix idle' :: "('a, 'b, 'c) EPD \<Rightarrow> ('a, 'b, 'c) world \<Rightarrow> ('a, 'b, 'c) world option"
  fix e w w'
  assume IH: "\<And>e w w'. idle' e w = Some w' \<Longrightarrow>
     \<exists>k v. v \<noteq> 1 \<and> w' = (emits w (idle_wait e k v))\<lparr>reads := reads w + k + 1\<rparr>"
  assume body: "(case pin_Read (busy e) w of
      (v, w1) \<Rightarrow> if v = 1 then idle' e (emit (TimeSleep 200) w1) else Some w1) = Some w'"
  show "\<exists>k v. v \<noteq> 1 \<and> w' = (emits w (idle_wait e k v))\<lparr>reads := reads w + k + 1\<rparr>"
  proof (cases "busy_line w (reads w) = 1")
    case True
    let ?w1 = "(emits w [Read (busy e) 1, TimeSleep 200])\<lparr>reads := Suc (reads w)\<rparr>"
    from body True have "idle' e ?w1 = Some w'"
      by (simp add: pin_Read_def emit_def emits_def Let_def)
    from IH [OF this] obtain k v where v: "v \<noteq> 1"
      and w': "w' = (emits ?w1 (idle_wait e k v))\<lparr>reads := reads ?w1 + k + 1\<rparr>"
      by blast
    have "w' = (emits w (idle_wait e (Suc k) v))\<lparr>reads := reads w + Suc k + 1\<rparr>"
      by (simp add: w' emits_def idle_wait_Suc)
    with v show ?thesis by blast
  next
    case False
    with body have "w' = (emits w (idle_wait e 0 (busy_line w (reads w))))\<lparr>reads := reads w + 0 + 1\<rparr>"
      by (auto simp add: pin_Read_def emit_def emits_def idle_wait_0 Let_def)
    with False show ?thesis by blast
  qed
qed

lemma idle_returns:
  "busy_line w (reads w + k) \<noteq> 1 \<Longrightarrow> \<exists>w'. idle e w = Some w'"
proof (induction k arbitrary: w)
  case 0
  then show ?case by (subst idle_unfold) simp
next
  case (Suc k)
  show ?case
  proof (cases "busy_line w (reads w) = 1")
    case True
    let ?w1 = "(emits w [Read (busy e) 1, TimeSleep 200])\<lparr>reads := Suc (reads w)\<rparr>"
    from Suc.prems have "busy_line ?w1 (reads ?w1 + k) \<noteq> 1" by simp
    from Suc.IH [OF this] obtain w' where "idle e ?w1 = Some w'" by blast
    with True show ?thesis by (subst idle_unfold) simp
  next
    case False
    then show ?thesis by (subst idle_unfold) simp
  qed
qed

text \<open>On a line that stays busy the wait never ends.\<close>

lemma idle_polls:
  assumes "idle e w = Some w'"
  shows "\<exists>k. busy_line w (reads w + k) \<noteq> 1"
proof (rule idle.raw_induct [OF _ assms])
  fix idle' :: "('a, 'b, 'c) EPD \<Rightarrow> ('a, 'b, 'c) world \<Rightarrow> ('a, 'b, 'c) world option"
  fix e w w'
  assume IH: "\<And>e w w'. idle' e w = Some w' \<Longrightarrow> \<exists>k. busy_line w (reads w + k) \<noteq> 1"
  assume body: "(case pin_Read (busy e) w of
      (v, w1) \<Rightarrow> if v = 1 then idle' e (emit (TimeSleep 200) w1) else Some w1) = Some w'"
  show "\<exists>k. busy_line w (reads w + k) \<noteq> 1"
  proof (cases "busy_line w (reads w) = 1")
    case True
    let ?w1 = "(emits w [Read (busy e) 1, TimeSleep 200])\<lparr>reads := Suc (reads w)\<rparr>"
    from body True have "idle' e ?w1 = Some w'"
      by (simp add: pin_Read_def emit_def emits_def Let_def)
    from IH [OF this] obtain k where "busy_line w (reads w + Suc k) \<noteq> 1" by auto
    then show ?thesis by blast
  next
    case False
    then have "busy_line w (reads w + 0) \<noteq> 1" by simp
    then show ?thesis by blast
  qed
qed

lemma idle_stuck:
  assumes "\<forall>m\<ge>reads w. busy_line w m = 1"
  shows "idle e w = None"
proof (cases "idle e w")
  case None
  then show ?thesis .
next
  case (Some w')
  from idle_polls [OF this] obtain k where "busy_line w (reads w + k) \<noteq> 1" by blast
  with assms show ?thesis by simp
qed

lemma bit_128: "bit (128 :: int) n \<longleftrightarrow> n = 7"
proof -
  have "bit ((2 :: int) ^ 7) n \<longleftrightarrow> n = 7"
    by (simp only: bit_exp_iff) simp
  then show ?thesis by simp
qed

lemma bit_255: "bit (255 :: int) n \<longleftrightarrow> n < 8"
proof -
  have "bit (mask 8 :: int) n \<longleftrightarrow> n < 8"
    by (simp only: bit_mask_iff) simp
  then show ?thesis by (simp add: mask_eq_exp_minus_1)
qed

lemma pixels_bit:
  "0 \<le> px \<Longrightarrow>
   bit (pixels isdark img i j px b) n \<longleftrightarrow>
     bit b n \<and> \<not> (\<exists>q. px \<le> q \<and> q < 8 \<and> n = nat (7 - q) \<and> dark_at isdark img (j + q) i)"
proof (induction isdark img i j px b rule: pixels.induct)
  case (1 isdark img i j px b)
  show ?case
  proof (cases "px < 8")
    case False
    then show ?thesis by (subst pixels.simps) auto
  next
    case True
    let ?b = "if dark_at isdark img (j + px) i
              then b AND NOT (drop_bit (nat (px mod 8)) 0x80) else b"
    have step: "bit ?b n \<longleftrightarrow> bit b n \<and> \<not> (n = nat (7 - px) \<and> dark_at isdark img (j + px) i)"
      using True "1.prems"
      by (auto simp add: bit_and_iff bit_not_iff bit_drop_bit_eq bit_128)
    have "bit (pixels isdark img i j px b) n \<longleftrightarrow> bit (pixels isdark img i j (px + 1) ?b) n"
      using True by (subst pixels.simps) simp
    also have "\<dots> \<longleftrightarrow> bit ?b n \<and>
        \<not> (\<exists>q. px + 1 \<le> q \<and> q < 8 \<and> n = nat (7 - q) \<and> dark_at isdark img (j + q) i)"
      using "1.IH" [OF True] "1.prems" by simp
    also have "\<dots> \<longleftrightarrow> bit b n \<and>
        \<not> (\<exists>q. px \<le> q \<and> q < 8 \<and> n = nat (7 - q) \<and> dark_at isdark img (j + q) i)"
    proof -
      have "(\<exists>q. px \<le> q \<and> q < 8 \<and> n = nat (7 - q) \<and> dark_at isdark img (j + q) i) \<longleftrightarrow>
            (n = nat (7 - px) \<and> dark_at isdark img (j + px) i) \<or>
            (\<exists>q. px + 1 \<le> q \<and> q < 8 \<and> n = nat (7 - q) \<and> dark_at isdark img (j + q) i)"
        (is "?L \<longleftrightarrow> ?A \<or> ?B")
      proof
        assume ?L
        then obtain q where q: "px \<le> q" "q < 8" "n = nat (7 - q)" "dark_at isdark img (j + q) i"
          by blast
        show "?A \<or> ?B"
        proof (cases "q = px")
          case True
          with q show ?thesis by simp
        next
          case False
          with q have "px + 1 \<le> q" by simp
          with q show ?thesis by blast
        qed
      next
        assume "?A \<or> ?B"
        then show ?L
        proof
          assume ?A
          with True show ?L by blast
        next
          assume ?B
          then obtain q where "px + 1 \<le> q" "q < 8" "n = nat (7 - q)" "dark_at isdark img (j + q) i"
            by blast
          then have "px \<le> q \<and> q < 8 \<and> n = nat (7 - q) \<and> dark_at isdark img (j + q) i" by simp
          then show ?L by blast
        qed
      qed
      with step show ?thesis by blast
    qed
    finally show ?thesis .
  qed
qed

lemma byte_bit:
  assumes "px < 8"
  shows "bit (of_int (pixels isdark img i j 0 0xFF) :: u8) (7 - px) \<longleftrightarrow>
           \<not> dark_at isdark img (j + int px) i"
proof -
  have "(\<exists>q. 0 \<le> q \<and> q < 8 \<and> 7 - px = nat (7 - q) \<and> dark_at isdark img (j + q) i) \<longleftrightarrow>
        dark_at isdark img (j + int px) i" (is "?L \<longleftrightarrow> ?R")
  proof
    assume ?L
    then obtain q where q: "0 \<le> q" "q < 8" "7 - px = nat (7 - q)" "dark_at isdark img (j + q) i"
      by blast
    from q(1,2,3) assms have "q = int px" by linarith
    with q show ?R by simp
  next
    assume ?R
    moreover have "0 \<le> int px \<and> int px < 8 \<and> 7 - px = nat (7 - int px)" using assms by simp
    ultimately show ?L by blast
  qed
  moreover have "7 - px < 8" by simp
  ultimately show ?thesis
    by (simp add: bit_word_of_int_iff pixels_bit bit_255 del: of_int_numeral)
qed

lemma columns_emits:
  "columns isdark e img i j w =
     emits w (concat (map (\<lambda>n. data_frame e (of_int (pixels isdark img i (j + 8 * int n) 0 0xFF)))
                          [0..<nat ((Width e - j + 7) div 8)]))"
proof (induction isdark e img i j w rule: columns.induct)
  case (1 isdark e img i j w)
  show ?case
  proof (cases "j < Width e")
    case False
    then have "nat ((Width e - j + 7) div 8) = 0" by simp
    with False show ?thesis by (subst columns.simps) (simp add: emits_Nil)
  next
    case True
    then have n: "nat ((Width e - j + 7) div 8) = Suc (nat ((Width e - (j + 8) + 7) div 8))"
      by linarith
    have shift: "map (\<lambda>n. data_frame e (of_int (pixels isdark img i (j + 8 * int n) 0 0xFF)))
                   [Suc 0..<Suc m]
          = map (\<lambda>n. data_frame e (of_int (pixels isdark img i (j + 8 + 8 * int n) 0 0xFF)))
                   [0..<m]" for m
      by (simp add: map_Suc_upt [symmetric] algebra_simps del: upt_Suc)
    show ?thesis
      using True "1.IH" [OF True]
      by (subst columns.simps)
         (simp add: n data_emits emits_emits upt_conv_Cons shift del: upt_Suc)
  qed
qed

lemma lo_byte: "(ucast (of_int k :: u16) :: u8) = of_int k"
  by (rule bit_word_eqI) (auto simp add: bit_simps)

lemma hi_byte: "(ucast (drop_bit 8 (of_int k :: u16)) :: u8) = of_int (k div 256)"
proof -
  have "k div 256 = drop_bit 8 k" by (simp add: drop_bit_eq_div)
  show ?thesis unfolding \<open>k div 256 = drop_bit 8 k\<close>
    by (rule bit_word_eqI) (auto simp add: bit_simps)
qed

lemma x_byte:
  assumes "0 \<le> k" "k < 256"
  shows "drop_bit 3 (of_int k :: u8) = of_int (k div 8)"
proof -
  have d: "k div 8 = drop_bit 3 k" by (simp add: drop_bit_eq_div)
  have "take_bit 8 k = k" using assms by (simp add: take_bit_int_eq_self)
  then have hi: "m < 8" if "bit k m" for m
    using that by (metis bit_take_bit_iff)
  show ?thesis unfolding d
    by (rule bit_word_eqI) (auto simp add: bit_simps dest: hi)
qed

lemma mask_byte: "(of_int (k AND 0xFF) :: u8) = of_int k"
proof -
  have "(0xFF :: int) = mask 8" by (simp add: mask_eq_exp_minus_1)
  show ?thesis unfolding \<open>(0xFF :: int) = mask 8\<close>
    by (rule bit_word_eqI) (auto simp add: bit_simps)
qed

lemma cursor_Some:
  assumes "cursor e 0 (of_int i) w = Some w1"
  shows "\<exists>k v. v \<noteq> 1 \<and> busy_line w1 = busy_line w \<and>
           trace w1 = trace w @ command_frame e 0x4E @ data_frame e 0 @ command_frame e 0x4F @
             data_frame e (of_int i) @ data_frame e (of_int (i div 256)) @ idle_wait e k v"
proof -
  let ?w0 = "emits w (command_frame e 0x4E @ data_frame e 0 @ command_frame e 0x4F @
             data_frame e (of_int i) @ data_frame e (of_int (i div 256)))"
  from assms have "idle e ?w0 = Some w1"
    by (simp add: cursor_def command_emits data_emits emits_emits ucast_mask16 lo_byte hi_byte
          del: and_minus_numerals)
  from idle_Some [OF this] obtain k v where "v \<noteq> 1"
    and "w1 = (emits ?w0 (idle_wait e k v))\<lparr>reads := reads ?w0 + k + 1\<rparr>"
    by blast
  then have "v \<noteq> 1 \<and> busy_line w1 = busy_line w \<and>
           trace w1 = trace w @ command_frame e 0x4E @ data_frame e 0 @ command_frame e 0x4F @
             data_frame e (of_int i) @ data_frame e (of_int (i div 256)) @ idle_wait e k v"
    by simp
  then show ?thesis by blast
qed

lemma cursor_returns:
  assumes "\<forall>n. \<exists>m\<ge>n. busy_line w m \<noteq> 1"
  shows "\<exists>w1. cursor e x y w = Some w1"
proof -
  from assms obtain m where m: "reads w \<le> m" "busy_line w m \<noteq> 1" by blast
  then have "m = reads w + (m - reads w)" by simp
  with m(2) show ?thesis
    unfolding cursor_def Let_def command_emits data_emits emits_emits
    by (intro idle_returns [where k = "m - reads w"]) simp
qed

lemma columns_row:
  assumes "8 dvd Width e"
  shows "columns isdark e img i 0 w =
     emits w (concat (map (\<lambda>c. data_frame e (of_int (pixels isdark img i (8 * int c) 0 0xFF)))
                          [0..<nat (Width e div 8)]))"
proof -
  from assms have "(Width e - 0 + 7) div 8 = Width e div 8" by auto
  then show ?thesis by (simp add: columns_emits)
qed

lemma rows_Some:
  assumes "8 dvd Width e"
  shows "rows isdark e img i w = Some w' \<Longrightarrow> 0 \<le> i \<Longrightarrow>
     \<exists>polls. (\<forall>r. snd (polls r) \<noteq> 1) \<and> busy_line w' = busy_line w \<and>
       trace w' = trace w @
         concat (map (\<lambda>r. row_frames isdark e img r (polls r)) [nat i..<nat (Height e)])"
  using assms
proof (induction isdark e img i w rule: rows.induct)
  case (1 isdark e img i w)
  show ?case
  proof (cases "i < Height e")
    case False
    with "1.prems" have w': "w' = w" by (subst (asm) rows.simps) simp
    from False have emp: "[nat i..<nat (Height e)] = []" by simp
    show ?thesis
      by (rule exI [where x = "\<lambda>_. (0, 0)"]) (simp add: emp w')
  next
    case True
    from "1.prems"(1) True obtain w1 where c: "cursor e 0 (of_int i) w = Some w1"
      and r: "rows isdark e img (i + 1) (columns isdark e img i 0 (command e 0x24 w1)) = Some w'"
      by (subst (asm) rows.simps) (auto split: option.splits)
    from cursor_Some [OF c] obtain k v where v: "v \<noteq> 1" and bl: "busy_line w1 = busy_line w"
      and t1: "trace w1 = trace w @ command_frame e 0x4E @ data_frame e 0 @ command_frame e 0x4F @
             data_frame e (of_int i) @ data_frame e (of_int (i div 256)) @ idle_wait e k v"
      by blast
    from "1.IH" [OF True c r] "1.prems" obtain polls where p: "\<forall>r. snd (polls r) \<noteq> 1"
      and bl': "busy_line w' = busy_line (columns isdark e img i 0 (command e 0x24 w1))"
      and t': "trace w' = trace (columns isdark e img i 0 (command e 0x24 w1)) @
         concat (map (\<lambda>r. row_frames isdark e img r (polls r)) [nat (i + 1)..<nat (Height e)])"
      by auto
    let ?polls = "polls(nat i := (k, v))"
    from "1.prems"(2) have i: "int (nat i) = i" "nat (i + 1) = Suc (nat i)" by simp_all
    from True "1.prems"(2) have upt: "[nat i..<nat (Height e)] = nat i # [Suc (nat i)..<nat (Height e)]"
      by (simp add: upt_conv_Cons)
    have tail: "map (\<lambda>r. row_frames isdark e img r (?polls r)) [Suc (nat i)..<nat (Height e)]
              = map (\<lambda>r. row_frames isdark e img r (polls r)) [Suc (nat i)..<nat (Height e)]"
      by (rule map_cong) simp_all
    have "nat i div 256 = nat (i div 256)" using "1.prems"(2) by (simp add: nat_div_distrib)
    then have di: "(of_nat (nat i) :: u8) = of_int i" "(of_nat (nat i div 256) :: u8) = of_int (i div 256)"
      using "1.prems"(2) by (simp_all add: pos_imp_zdiv_nonneg_iff)
    have t: "trace w' = trace w @
         concat (map (\<lambda>r. row_frames isdark e img r (?polls r)) [nat i..<nat (Height e)])"
      unfolding upt list.map concat.simps tail
      using "1.prems"(2)
      by (simp add: t' t1 i columns_row [OF "1.prems"(3)] command_emits di)
    have p': "\<forall>r. snd (?polls r) \<noteq> 1" using p v by simp
    have b: "busy_line w' = busy_line w"
      by (simp add: bl' bl columns_row [OF "1.prems"(3)] command_emits)
    show ?thesis
      by (rule exI [where x = ?polls]) (intro conjI p' b t)
  qed
qed

lemma rows_returns:
  "\<forall>n. \<exists>m\<ge>n. busy_line w m \<noteq> 1 \<Longrightarrow> \<exists>w'. rows isdark e img i w = Some w'"
proof (induction isdark e img i w rule: rows.induct)
  case (1 isdark e img i w)
  show ?case
  proof (cases "i < Height e")
    case False
    then show ?thesis by (subst rows.simps) simp
  next
    case True
    from cursor_returns [OF "1.prems"] obtain w1 where c: "cursor e 0 (of_int i) w = Some w1"
      by blast
    from cursor_Some [OF c] have "busy_line w1 = busy_line w" by blast
    with "1.prems" have "\<forall>n. \<exists>m\<ge>n. busy_line (columns isdark e img i 0 (command e 0x24 w1)) m \<noteq> 1"
      by (simp add: columns_emits command_emits)
    from "1.IH" [OF True c this] show ?thesis
      using True c by (subst rows.simps) simp
  qed
qed

lemma turnOnDisplay_Some:
  assumes "turnOnDisplay e w = Some w'"
  shows "\<exists>k v. v \<noteq> 1 \<and>
           trace w' = trace w @ command_frame e 0x22 @ data_frame e 0xC4 @ command_frame e 0x20 @
             command_frame e 0xFF @ idle_wait e k v"
proof -
  let ?w0 = "emits w (command_frame e 0x22 @ data_frame e 0xC4 @ command_frame e 0x20 @
             command_frame e 0xFF)"
  from assms have "idle e ?w0 = Some w'"
    by (simp add: turnOnDisplay_def command_emits data_emits emits_emits)
  from idle_Some [OF this] obtain k v where "v \<noteq> 1"
    and "w' = (emits ?w0 (idle_wait e k v))\<lparr>reads := reads ?w0 + k + 1\<rparr>"
    by blast
  then have "v \<noteq> 1 \<and>
           trace w' = trace w @ command_frame e 0x22 @ data_frame e 0xC4 @ command_frame e 0x20 @
             command_frame e 0xFF @ idle_wait e k v"
    by simp
  then show ?thesis by blast
qed

lemma turnOnDisplay_returns:
  assumes "\<forall>n. \<exists>m\<ge>n. busy_line w m \<noteq> 1"
  shows "\<exists>w1. turnOnDisplay e w = Some w1"
proof -
  from assms obtain m where m: "reads w \<le> m" "busy_line w m \<noteq> 1" by blast
  then have "m = reads w + (m - reads w)" by simp
  with m(2) show ?thesis
    unfolding turnOnDisplay_def Let_def command_emits data_emits emits_emits
    by (intro idle_returns [where k = "m - reads w"]) simp
qed

lemma Draw_error_iff:
  "Draw isdark e img w = Some (Some err, w') \<longleftrightarrow>
     \<not> is_Uniform img \<and> \<not> (X (Size (Bounds img)) = Width e \<and> Y (Size (Bounds img)) = Height e)
     \<and> w' = w"
  by (cases err) (auto simp add: Draw_def Let_def split: option.splits)

lemma rows_busy_line:
  "rows isdark e img i w = Some w' \<Longrightarrow> busy_line w' = busy_line w"
proof (induction isdark e img i w rule: rows.induct)
  case (1 isdark e img i w)
  show ?case
  proof (cases "i < Height e")
    case False
    with "1.prems" show ?thesis by (subst (asm) rows.simps) simp
  next
    case True
    from "1.prems" True obtain w1 where c: "cursor e 0 (of_int i) w = Some w1"
      and r: "rows isdark e img (i + 1) (columns isdark e img i 0 (command e 0x24 w1)) = Some w'"
      by (subst (asm) rows.simps) (auto split: option.splits)
    from cursor_Some [OF c] have "busy_line w1 = busy_line w" by blast
    with "1.IH" [OF True c r] show ?thesis
      by (simp add: columns_emits command_emits)
  qed
qed

lemma Draw_returns:
  assumes "\<forall>n. \<exists>m\<ge>n. busy_line w m \<noteq> 1"
  shows "\<exists>r. Draw isdark e img w = Some r"
proof (cases "\<not> is_Uniform img \<and> \<not> (X (Size (Bounds img)) = Width e \<and> Y (Size (Bounds img)) = Height e)")
  case True
  then show ?thesis by (simp add: Draw_def)
next
  case False
  let ?w0 = "window e 0 (of_int (Width e - 1)) 0 (of_int (Height e - 1)) w"
  from assms have "\<forall>n. \<exists>m\<ge>n. busy_line ?w0 m \<noteq> 1" by (simp add: window_emits)
  from rows_returns [OF this] obtain w1 where r: "rows isdark e img 0 ?w0 = Some w1" by blast
  from rows_busy_line [OF r] have "busy_line w1 = busy_line w" by (simp add: window_emits)
  with assms have "\<forall>n. \<exists>m\<ge>n. busy_line w1 m \<noteq> 1" by simp
  from turnOnDisplay_returns [OF this] obtain w2 where "turnOnDisplay e w1 = Some w2" by blast
  with r False show ?thesis by (simp add: Draw_def Let_def)
qed

lemma Draw_Some:
  assumes ok: "is_Uniform img \<or> (X (Size (Bounds img)) = Width e \<and> Y (Size (Bounds img)) = Height e)"
    and W: "0 < Width e" "Width e \<le> 256" "8 dvd Width e"
    and D: "Draw isdark e img w = Some r"
  shows "\<exists>polls. (\<forall>i. snd (polls i) \<noteq> 1) \<and> fst r = None \<and>
     trace (snd r) = trace w @
       command_frame e 0x44 @ data_frame e 0 @ data_frame e (of_int ((Width e - 1) div 8)) @
       command_frame e 0x45 @ data_frame e 0 @ data_frame e 0 @
       data_frame e (of_int (Height e - 1)) @ data_frame e (of_int ((Height e - 1) div 256)) @
       concat (map (\<lambda>i. row_frames isdark e img i (polls i)) [0..<nat (Height e)]) @
       command_frame e 0x22 @ data_frame e 0xC4 @ command_frame e 0x20 @ command_frame e 0xFF @
       idle_wait e (fst (polls (nat (Height e)))) (snd (polls (nat (Height e))))"
proof -
  let ?x1 = "of_int (Width e - 1) :: u8" and ?y1 = "of_int (Height e - 1) :: u16"
  let ?w0 = "window e 0 ?x1 0 ?y1 w"
  from ok D obtain w1 w2 where r: "rows isdark e img 0 ?w0 = Some w1"
    and t: "turnOnDisplay e w1 = Some w2" and res: "r = (None, w2)"
    by (auto simp add: Draw_def Let_def split: option.splits)
  have x: "drop_bit 3 ?x1 = of_int ((Width e - 1) div 8)"
    using W by (intro x_byte) simp_all
  have t0: "trace ?w0 = trace w @
       command_frame e 0x44 @ data_frame e 0 @ data_frame e (of_int ((Width e - 1) div 8)) @
       command_frame e 0x45 @ data_frame e 0 @ data_frame e 0 @
       data_frame e (of_int (Height e - 1)) @ data_frame e (of_int ((Height e - 1) div 256))"
    unfolding window_emits x lo_byte hi_byte by simp
  from rows_Some [OF W(3) r] obtain polls where p: "\<forall>r. snd (polls r) \<noteq> 1"
    and t1: "trace w1 = trace ?w0 @
         concat (map (\<lambda>r. row_frames isdark e img r (polls r)) [nat 0..<nat (Height e)])"
    by auto
  from turnOnDisplay_Some [OF t] obtain k v where v: "v \<noteq> 1"
    and t2: "trace w2 = trace w1 @ command_frame e 0x22 @ data_frame e 0xC4 @
             command_frame e 0x20 @ command_frame e 0xFF @ idle_wait e k v"
    by blast
  let ?polls = "polls(nat (Height e) := (k, v))"
  have same: "map (\<lambda>r. row_frames isdark e img r (?polls r)) [0..<nat (Height e)]
            = map (\<lambda>r. row_frames isdark e img r (polls r)) [0..<nat (Height e)]"
    by (rule map_cong) simp_all
  have p': "\<forall>i. snd (?polls i) \<noteq> 1" using p v by simp
  have tr: "trace (snd r) = trace w @
       command_frame e 0x44 @ data_frame e 0 @ data_frame e (of_int ((Width e - 1) div 8)) @
       command_frame e 0x45 @ data_frame e 0 @ data_frame e 0 @
       data_frame e (of_int (Height e - 1)) @ data_frame e (of_int ((Height e - 1) div 256)) @
       concat (map (\<lambda>i. row_frames isdark e img i (?polls i)) [0..<nat (Height e)]) @
       command_frame e 0x22 @ data_frame e 0xC4 @ command_frame e 0x20 @ command_frame e 0xFF @
       idle_wait e (fst (?polls (nat (Height e)))) (snd (?polls (nat (Height e))))"
    unfolding same by (simp add: res t2 t1 t0 del: of_int_diff)
  have n: "fst r = None" by (simp add: res)
  show ?thesis
    by (rule exI [where x = ?polls]) (intro conjI p' n tr)
qed

lemma Mode_emits:
  "Mode e mode w = emits w
     ([High (rst e), TimeSleep 200, Low (rst e), TimeSleep 10, High (rst e), TimeSleep 200] @
      command_frame e 0x01 @ data_frame e (of_int (Height e - 1)) @
      data_frame e (of_int ((Height e - 1) div 256)) @ data_frame e 0x00 @
      command_frame e 0x0C @ data_frame e 0xD7 @ data_frame e 0xD6 @ data_frame e 0x9D @
      command_frame e 0x2C @ data_frame e 0xA8 @
      command_frame e 0x3A @ data_frame e 0x1A @
      command_frame e 0x3B @ data_frame e 0x08 @
      command_frame e 0x11 @ data_frame e 0x03 @
      command_frame e 0x32 @
      concat (map (data_frame e) (if mode = PartialUpdate then partialUpdate else fullUpdate)))"
proof -
  have hi: "drop_bit 8 (Height e - 1) = (Height e - 1) div 256"
    by (simp add: drop_bit_eq_div)
  show ?thesis
    unfolding Mode_def Let_def reset_emits command_emits data_emits data_range_emits emits_emits
      mask_byte hi
    by simp
qed

lemma transmitted_append: "transmitted (a @ b) = transmitted a @ transmitted b"
  by (induction a rule: transmitted.induct) simp_all

lemma transmitted_command_frame: "transmitted (command_frame e c) = [c]"
  by (simp add: command_frame_def)

lemma transmitted_data_frame: "transmitted (data_frame e d) = [d]"
  by (simp add: data_frame_def)

lemma transmitted_data_frames: "transmitted (concat (map (data_frame e) bs)) = bs"
  by (induction bs) (simp_all add: transmitted_append transmitted_data_frame)

lemma transmitted_idle_wait: "transmitted (idle_wait e k v) = []"
  by (induction k) (simp_all add: idle_wait_0 idle_wait_Suc)

lemma little_endian_int:
  "uint (of_int k :: u8) + 256 * uint (of_int (k div 256) :: u8) = k mod 65536"
proof -
  have "k mod (256 * 256) = 256 * (k div 256 mod 256) + k mod 256"
    using zmod_zmult2_eq [where a = k and b = 256 and c = 256] by simp
  then show ?thesis by (simp add: uint_word_of_int take_bit_eq_mod)
qed

lemma uniform_byte:
  "(of_int (pixels isdark (Uniform c) i j 0 0xFF) :: u8) =
     (if (case color_RGBA c of (r, g, b, a) \<Rightarrow> isdark r g b a) then 0x00 else 0xFF)"
proof -
  have m: "(0xFF :: u8) = - 1" by simp
  show ?thesis unfolding m
  proof (rule bit_word_eqI)
    fix n
    assume "n < LENGTH(8)"
    then have n: "n < 8" by simp
    then have "7 - (7 - n) = n" by simp
    with byte_bit [of "7 - n" isdark "Uniform c" i j]
    have "bit (of_int (pixels isdark (Uniform c) i j 0 0xFF) :: u8) n \<longleftrightarrow>
            \<not> (case color_RGBA c of (r, g, b, a) \<Rightarrow> isdark r g b a)"
      by (simp add: dark_at_def)
    with n show "bit (of_int (pixels isdark (Uniform c) i j 0 0xFF) :: u8) n \<longleftrightarrow>
        bit (if (case color_RGBA c of (r, g, b, a) \<Rightarrow> isdark r g b a) then 0x00 else - 1 :: u8) n"
      by (simp add: bit_simps)
  qed
qed

lemma transmitted_rows:
  "transmitted (concat (map f xs)) = concat (map (\<lambda>x. transmitted (f x)) xs)"
  by (induction xs) (simp_all add: transmitted_append)

lemma transmitted_data_map:
  "transmitted (concat (map (\<lambda>c. data_frame e (f c)) ks)) = map f ks"
  by (induction ks) (simp_all add: transmitted_append transmitted_data_frame)

lemma pattern_bytes:
  "(of_int (pixels red_below_half
       (Raster \<lparr>Min_pt = \<lparr>X = 0, Y = 0\<rparr>, Max_pt = \<lparr>X = 8, Y = 2\<rparr>\<rparr>
          (\<lambda>x y. if y = 0 \<and> (x = 0 \<or> x = 2) \<or> y = 1 \<and> x = 7 then Black else White))
       0 0 0 0xFF) :: u8) = 0x5F"
  "(of_int (pixels red_below_half
       (Raster \<lparr>Min_pt = \<lparr>X = 0, Y = 0\<rparr>, Max_pt = \<lparr>X = 8, Y = 2\<rparr>\<rparr>
          (\<lambda>x y. if y = 0 \<and> (x = 0 \<or> x = 2) \<or> y = 1 \<and> x = 7 then Black else White))
       1 0 0 0xFF) :: u8) = 0xFE"
  by (simp_all add: pixels.simps dark_at_def Black_def White_def red_below_half_def)

section \<open>The threshold of the darkness\<close>

lemma lo_f_pos: "0 < lo_f" "lo_f \<le> 1"
  by (simp_all add: lo_f_def)
lemma hi_f_ge: "1 \<le> hi_f"
  by (simp add: hi_f_def)

lemma lo_pow_half: "k \<le> 8 \<Longrightarrow> 1 / 2 \<le> lo_f ^ k"
proof -
  assume "k \<le> 8"
  then have "lo_f ^ 8 \<le> lo_f ^ k" using lo_f_pos by (intro power_decreasing) simp_all
  moreover have "1 / 2 \<le> lo_f ^ 8" by (simp add: lo_f_def power_divide)
  ultimately show ?thesis by simp
qed

lemma hi_pow_two: "k \<le> 8 \<Longrightarrow> hi_f ^ k \<le> 2"
proof -
  assume "k \<le> 8"
  then have "hi_f ^ k \<le> hi_f ^ 8" using hi_f_ge by (intro power_increasing) simp_all
  moreover have "hi_f ^ 8 \<le> 2" by (simp add: hi_f_def power_divide)
  ultimately show ?thesis by simp
qed

lemma approx_refl: "approx 0 t t"
  by (simp add: approx_def)

lemma approx_nonneg: "approx k x t \<Longrightarrow> 0 \<le> t \<Longrightarrow> 0 \<le> x"
proof -
  assume "approx k x t" "0 \<le> t"
  then have "0 \<le> t * lo_f ^ k" "t * lo_f ^ k \<le> x"
    using lo_f_pos by (simp_all add: approx_def)
  then show ?thesis by simp
qed

lemma approx_rnd:
  assumes acc: "accurate rnd" and ap: "approx k x t" and k: "k \<le> 7"
    and rg: "t = 0 \<or> (1 / 10 \<le> t \<and> t \<le> 2 ^ 69)"
  shows "approx (Suc k) (rnd n x) t"
proof (cases "t = 0")
  case True
  with ap have "x = 0" by (simp add: approx_def)
  with acc have "\<bar>rnd n 0 - 0\<bar> \<le> 0 / 2 ^ 40" unfolding accurate_def by blast
  then have "rnd n 0 = 0" by simp
  with True \<open>x = 0\<close> show ?thesis by (simp add: approx_def)
next
  case False
  with rg have t: "1 / 10 \<le> t" "t \<le> 2 ^ 69" by simp_all
  from ap have lo: "t * lo_f ^ k \<le> x" and hi: "x \<le> t * hi_f ^ k" by (simp_all add: approx_def)
  from k have "k \<le> 8" by simp
  then have l2: "1 / 2 \<le> lo_f ^ k" and h2: "hi_f ^ k \<le> 2"
    by (rule lo_pow_half, rule hi_pow_two)
  have "1 / 10 * (1 / 2) \<le> t * lo_f ^ k" using t(1) l2 by (intro mult_mono) simp_all
  with lo have x1: "1 / 32 \<le> x" by simp
  have h0: "0 \<le> hi_f ^ k" using hi_f_ge by simp
  have "t * hi_f ^ k \<le> 2 ^ 69 * 2" using t h2 h0 by (intro mult_mono) simp_all
  with hi have x2: "x \<le> 2 ^ 70" by simp
  from acc x1 x2 have "\<bar>rnd n x - x\<bar> \<le> x / 2 ^ 40" unfolding accurate_def by blast
  then have "x - x / 2 ^ 40 \<le> rnd n x \<and> rnd n x \<le> x + x / 2 ^ 40" by linarith
  moreover have "x * lo_f = x - x / 2 ^ 40" "x * hi_f = x + x / 2 ^ 40"
    by (simp_all add: lo_f_def hi_f_def algebra_simps)
  ultimately have r1: "x * lo_f \<le> rnd n x" and r2: "rnd n x \<le> x * hi_f"
    by linarith+
  have "t * lo_f ^ k * lo_f \<le> x * lo_f" using lo lo_f_pos by (intro mult_right_mono) simp_all
  with r1 have a1: "t * lo_f ^ Suc k \<le> rnd n x" by (simp add: mult_ac)
  have "x * hi_f \<le> t * hi_f ^ k * hi_f" using hi hi_f_ge by (intro mult_right_mono) simp_all
  with r2 have a2: "rnd n x \<le> t * hi_f ^ Suc k" by (simp add: mult_ac)
  from a1 a2 show ?thesis by (simp add: approx_def)
qed

lemma approx_mult:
  assumes "approx j c s" "approx k p t" "0 \<le> s" "0 \<le> t"
  shows "approx (j + k) (c * p) (s * t)"
proof -
  from assms have c: "s * lo_f ^ j \<le> c" "c \<le> s * hi_f ^ j"
    and p: "t * lo_f ^ k \<le> p" "p \<le> t * hi_f ^ k"
    by (simp_all add: approx_def)
  have n: "0 \<le> s * lo_f ^ j" "0 \<le> t * lo_f ^ k"
    using assms(3,4) lo_f_pos by simp_all
  with c p have cp: "0 \<le> c" "0 \<le> p" by simp_all
  have "(s * lo_f ^ j) * (t * lo_f ^ k) \<le> c * p"
    using c(1) p(1) n cp by (intro mult_mono) simp_all
  then have l: "s * t * lo_f ^ (j + k) \<le> c * p" by (simp add: power_add algebra_simps)
  have "0 \<le> s * hi_f ^ j" using assms(3) hi_f_ge by simp
  then have "c * p \<le> (s * hi_f ^ j) * (t * hi_f ^ k)"
    using c(2) p(2) cp by (intro mult_mono) simp_all
  then have h: "c * p \<le> s * t * hi_f ^ (j + k)" by (simp add: power_add algebra_simps)
  from l h show ?thesis by (simp add: approx_def)
qed

lemma approx_add:
  assumes "approx k x s" "approx k y t"
  shows "approx k (x + y) (s + t)"
  using assms by (simp add: approx_def distrib_right)

lemma approx_mono:
  assumes "approx j x t" "j \<le> k" "0 \<le> t"
  shows "approx k x t"
proof -
  from assms(1) have x: "t * lo_f ^ j \<le> x" "x \<le> t * hi_f ^ j" by (simp_all add: approx_def)
  have "lo_f ^ k \<le> lo_f ^ j" using assms(2) lo_f_pos by (intro power_decreasing) simp_all
  then have "t * lo_f ^ k \<le> t * lo_f ^ j" using assms(3) by (intro mult_left_mono)
  moreover have "hi_f ^ j \<le> hi_f ^ k" using assms(2) hi_f_ge by (intro power_increasing)
  then have "t * hi_f ^ j \<le> t * hi_f ^ k" using assms(3) by (intro mult_left_mono)
  ultimately show ?thesis using x by (simp add: approx_def)
qed

lemma square_range:
  assumes "n < 2 ^ 32"
  shows "(real n) ^ 2 = 0 \<or> (1 \<le> (real n) ^ 2 \<and> (real n) ^ 2 \<le> 2 ^ 64)"
proof (cases "n = 0")
  case True
  then show ?thesis by simp
next
  case False
  then have "1 \<le> real n" by simp
  then have l: "1 \<le> (real n) ^ 2" by (simp add: one_le_power)
  from assms have "real n \<le> 2 ^ 32" by simp
  then have "(real n) ^ 2 \<le> (2 ^ 32) ^ 2" by (intro power_mono) simp_all
  then have "(real n) ^ 2 \<le> 2 ^ 64" by simp
  with l show ?thesis by simp
qed

lemma term_approx:
  assumes acc: "accurate rnd" and c: "1 / 10 \<le> c" "c \<le> 1" and n: "n < 2 ^ 32"
  shows "approx 3 (rnd n3 (rnd n1 c * rnd n2 ((real n) ^ 2))) (c * (real n) ^ 2)"
proof -
  let ?R = "(real n) ^ 2"
  have R: "?R = 0 \<or> (1 \<le> ?R \<and> ?R \<le> 2 ^ 64)" using n by (rule square_range)
  have "approx (Suc 0) (rnd n1 c) c"
    using c by (intro approx_rnd [OF acc approx_refl]) simp_all
  moreover have "approx (Suc 0) (rnd n2 ?R) ?R"
  proof -
    have "?R = 0 \<or> (1 / 10 \<le> ?R \<and> ?R \<le> 2 ^ 69)"
    proof (cases "?R = 0")
      case True
      then show ?thesis by blast
    next
      case False
      with R have "1 \<le> ?R" "?R \<le> 2 ^ 64" by blast+
      moreover have "(2 :: real) ^ 64 \<le> 2 ^ 69" by simp
      ultimately have "1 / 10 \<le> ?R" "?R \<le> 2 ^ 69" by linarith+
      then show ?thesis by blast
    qed
    then show ?thesis by (intro approx_rnd [OF acc approx_refl]) simp_all
  qed
  ultimately have "approx (Suc 0 + Suc 0) (rnd n1 c * rnd n2 ?R) (c * ?R)"
    using c by (intro approx_mult) simp_all
  then have m: "approx 2 (rnd n1 c * rnd n2 ?R) (c * ?R)" by (simp add: numeral_2_eq_2)
  have "c * ?R = 0 \<or> (1 / 10 \<le> c * ?R \<and> c * ?R \<le> 2 ^ 69)"
  proof (cases "?R = 0")
    case True
    then show ?thesis by simp
  next
    case False
    with R have r: "1 \<le> ?R" "?R \<le> 2 ^ 64" by simp_all
    have "1 / 10 * 1 \<le> c * ?R" using c r by (intro mult_mono) simp_all
    moreover have "c * ?R \<le> 1 * 2 ^ 64" using c r by (intro mult_mono) simp_all
    ultimately show ?thesis by simp
  qed
  from approx_rnd [OF acc m _ this, of n3] show ?thesis by (simp add: numeral_3_eq_3 numeral_2_eq_2)
qed

lemma scaled_square_range:
  assumes "n < 2 ^ 32" "1 / 10 \<le> c" "c \<le> 1"
  shows "c * (real n) ^ 2 = 0 \<or> (1 / 10 \<le> c * (real n) ^ 2 \<and> c * (real n) ^ 2 \<le> 2 ^ 64)"
proof -
  let ?R = "(real n) ^ 2"
  from square_range [OF assms(1)] show ?thesis
  proof
    assume "?R = 0"
    then show ?thesis by simp
  next
    assume r: "1 \<le> ?R \<and> ?R \<le> 2 ^ 64"
    then have "1 / 10 * 1 \<le> c * ?R" using assms by (intro mult_mono) simp_all
    moreover have "c * ?R \<le> 1 * 2 ^ 64" using assms r by (intro mult_mono) simp_all
    ultimately show ?thesis by simp
  qed
qed

lemma sum_approx:
  assumes acc: "accurate rnd" and n: "nr < 2 ^ 32" "ng < 2 ^ 32" "nb < 2 ^ 32"
  shows "approx 5
     (rnd 10 (rnd 9 (
         rnd 6 (rnd 0 0.299 * rnd 3 ((real nr) ^ 2)) +
         rnd 7 (rnd 1 0.587 * rnd 4 ((real ng) ^ 2))) +
         rnd 8 (rnd 2 0.114 * rnd 5 ((real nb) ^ 2))))
     (0.299 * (real nr) ^ 2 + 0.587 * (real ng) ^ 2 + 0.114 * (real nb) ^ 2)"
proof -
  let ?tr = "0.299 * (real nr) ^ 2" and ?tg = "0.587 * (real ng) ^ 2"
    and ?tb = "0.114 * (real nb) ^ 2"
  have rr: "?tr = 0 \<or> (1 / 10 \<le> ?tr \<and> ?tr \<le> 2 ^ 64)"
    using n(1) by (intro scaled_square_range) simp_all
  have rg: "?tg = 0 \<or> (1 / 10 \<le> ?tg \<and> ?tg \<le> 2 ^ 64)"
    using n(2) by (intro scaled_square_range) simp_all
  have rb: "?tb = 0 \<or> (1 / 10 \<le> ?tb \<and> ?tb \<le> 2 ^ 64)"
    using n(3) by (intro scaled_square_range) simp_all
  have p64: "(2 :: real) ^ 64 + 2 ^ 64 \<le> 2 ^ 69" "(2 :: real) ^ 64 + 2 ^ 64 + 2 ^ 64 \<le> 2 ^ 69"
    "(2 :: real) ^ 64 \<le> 2 ^ 69"
    by simp_all
  have m1: "approx 3 (rnd 6 (rnd 0 0.299 * rnd 3 ((real nr) ^ 2))) ?tr"
    using n(1) by (intro term_approx [OF acc]) simp_all
  have m2: "approx 3 (rnd 7 (rnd 1 0.587 * rnd 4 ((real ng) ^ 2))) ?tg"
    using n(2) by (intro term_approx [OF acc]) simp_all
  have m3: "approx 3 (rnd 8 (rnd 2 0.114 * rnd 5 ((real nb) ^ 2))) ?tb"
    using n(3) by (intro term_approx [OF acc]) simp_all
  have nn: "0 \<le> ?tr" "0 \<le> ?tg" "0 \<le> ?tb" by simp_all
  have r1: "?tr + ?tg = 0 \<or> (1 / 10 \<le> ?tr + ?tg \<and> ?tr + ?tg \<le> 2 ^ 69)"
    using rr rg p64 nn by linarith
  have "approx 3 (rnd 6 (rnd 0 0.299 * rnd 3 ((real nr) ^ 2)) +
                  rnd 7 (rnd 1 0.587 * rnd 4 ((real ng) ^ 2))) (?tr + ?tg)"
    using m1 m2 by (rule approx_add)
  from approx_rnd [OF acc this _ r1, of 9]
  have s1: "approx 4 (rnd 9 (rnd 6 (rnd 0 0.299 * rnd 3 ((real nr) ^ 2)) +
                  rnd 7 (rnd 1 0.587 * rnd 4 ((real ng) ^ 2)))) (?tr + ?tg)"
    by (simp add: eval_nat_numeral)
  have m3': "approx 4 (rnd 8 (rnd 2 0.114 * rnd 5 ((real nb) ^ 2))) ?tb"
    by (rule approx_mono [OF m3]) simp_all
  have r2: "?tr + ?tg + ?tb = 0 \<or> (1 / 10 \<le> ?tr + ?tg + ?tb \<and> ?tr + ?tg + ?tb \<le> 2 ^ 69)"
    using rr rg rb p64 nn by linarith
  have "approx 4 (rnd 9 (rnd 6 (rnd 0 0.299 * rnd 3 ((real nr) ^ 2)) +
                  rnd 7 (rnd 1 0.587 * rnd 4 ((real ng) ^ 2))) +
                  rnd 8 (rnd 2 0.114 * rnd 5 ((real nb) ^ 2))) (?tr + ?tg + ?tb)"
    using s1 m3' by (rule approx_add)
  from approx_rnd [OF acc this _ r2, of 10] show ?thesis
    by (simp add: eval_nat_numeral)
qed

lemma weighted_value:
  "0.299 * (real nr) ^ 2 + 0.587 * (real ng) ^ 2 + 0.114 * (real nb) ^ 2
     = real (299 * nr ^ 2 + 587 * ng ^ 2 + 114 * nb ^ 2) / 1000"
  by simp

lemma sqrt_round:
  assumes acc: "accurate rnd" and s: "approx 5 s v" and v: "v = 0 \<or> (1 / 10 \<le> v \<and> v \<le> 2 ^ 64)"
  shows "sqrt s * lo_f \<le> rnd n (sqrt s) \<and> rnd n (sqrt s) \<le> sqrt s * hi_f"
proof -
  have rg: "sqrt s = 0 \<or> (1 / 10 \<le> sqrt s \<and> sqrt s \<le> 2 ^ 69)"
  proof (cases "v = 0")
    case True
    with s have "s = 0" by (simp add: approx_def)
    then show ?thesis by simp
  next
    case False
    with v have v': "1 / 10 \<le> v" "v \<le> 2 ^ 64" by simp_all
    from s have lo: "v * lo_f ^ 5 \<le> s" and hi: "s \<le> v * hi_f ^ 5" by (simp_all add: approx_def)
    have l2: "1 / 2 \<le> lo_f ^ 5" and h2: "hi_f ^ 5 \<le> 2"
      by (rule lo_pow_half, simp, rule hi_pow_two, simp)
    have h0: "0 \<le> hi_f ^ 5" using hi_f_ge by simp
    have "1 / 10 * (1 / 2) \<le> v * lo_f ^ 5" using v' l2 by (intro mult_mono) simp_all
    with lo have s1: "1 / 20 \<le> s" by simp
    have "v * hi_f ^ 5 \<le> 2 ^ 64 * 2" using v' h2 h0 by (intro mult_mono) simp_all
    with hi have s2: "s \<le> 2 ^ 65" by simp
    have "(1 / 10 :: real) ^ 2 \<le> s" using s1 by (simp add: power_divide)
    then have a: "1 / 10 \<le> sqrt s" by (rule real_le_rsqrt)
    have "s \<le> (2 ^ 69 :: real) ^ 2" using s2 by simp
    then have b: "sqrt s \<le> 2 ^ 69" by (intro real_le_lsqrt) simp_all
    from a b show ?thesis by simp
  qed
  from approx_rnd [OF acc approx_refl _ rg, of n] show ?thesis
    by (simp add: approx_def)
qed

lemma dark_below:
  assumes acc: "accurate rnd" and n: "nr < 2 ^ 32" "ng < 2 ^ 32" "nb < 2 ^ 32"
    and below: "299 * nr ^ 2 + 587 * ng ^ 2 + 114 * nb ^ 2 < (16900000 :: nat)"
  shows "rnd 11 (sqrt (rnd 10 (rnd 9 (
         rnd 6 (rnd 0 0.299 * rnd 3 ((real nr) ^ 2)) +
         rnd 7 (rnd 1 0.587 * rnd 4 ((real ng) ^ 2))) +
         rnd 8 (rnd 2 0.114 * rnd 5 ((real nb) ^ 2))))) \<le> 130"
proof -
  let ?s = "rnd 10 (rnd 9 (
         rnd 6 (rnd 0 0.299 * rnd 3 ((real nr) ^ 2)) +
         rnd 7 (rnd 1 0.587 * rnd 4 ((real ng) ^ 2))) +
         rnd 8 (rnd 2 0.114 * rnd 5 ((real nb) ^ 2)))"
  let ?N = "299 * nr ^ 2 + 587 * ng ^ 2 + 114 * nb ^ 2"
  let ?v = "real ?N / 1000"
  have ap: "approx 5 ?s ?v"
    using sum_approx [OF acc n] unfolding weighted_value .
  from below have "?N \<le> 16899999" by simp
  then have "real ?N \<le> 16899999" by (simp only: of_nat_le_iff [symmetric, where ?'a = real] of_nat_numeral)
  then have v1: "?v \<le> 16899999 / 1000" by simp
  have v0: "0 \<le> ?v" by simp
  have vr: "?v = 0 \<or> (1 / 10 \<le> ?v \<and> ?v \<le> 2 ^ 64)"
  proof (cases "?N = 0")
    case True
    then show ?thesis by simp
  next
    case False
    then have "nr \<noteq> 0 \<or> ng \<noteq> 0 \<or> nb \<noteq> 0" by auto
    moreover have "1 \<le> k ^ 2" if "k \<noteq> 0" for k :: nat
      using that by (simp add: Suc_le_eq)
    ultimately have "1 \<le> nr ^ 2 \<or> 1 \<le> ng ^ 2 \<or> 1 \<le> nb ^ 2" by blast
    then have "114 \<le> ?N" by linarith
    then have "114 \<le> real ?N" by (simp only: of_nat_le_iff [symmetric, where ?'a = real] of_nat_numeral)
    then have "1 / 10 \<le> ?v" by simp
    moreover have "?v \<le> 2 ^ 64" using v1 by simp
    ultimately show ?thesis by simp
  qed
  from ap have hi: "?s \<le> ?v * hi_f ^ 5" by (simp add: approx_def)
  have h0: "0 \<le> hi_f ^ 5" using hi_f_ge by simp
  have "?v * hi_f ^ 5 \<le> 16899999 / 1000 * hi_f ^ 5" using v1 h0 by (rule mult_right_mono)
  also have "\<dots> \<le> (130 / hi_f) ^ 2" by (simp add: hi_f_def power_divide)
  finally have "?s \<le> (130 / hi_f) ^ 2" using hi by simp
  moreover have hp: "0 < hi_f" using hi_f_ge by simp
  ultimately have "sqrt ?s \<le> 130 / hi_f" by (intro real_le_lsqrt) simp_all
  then have "sqrt ?s * hi_f \<le> 130" using hp by (simp add: pos_le_divide_eq)
  with sqrt_round [OF acc ap vr, of 11] show ?thesis by simp
qed

lemma light_above:
  assumes acc: "accurate rnd" and n: "nr < 2 ^ 32" "ng < 2 ^ 32" "nb < 2 ^ 32"
    and above: "(16900000 :: nat) < 299 * nr ^ 2 + 587 * ng ^ 2 + 114 * nb ^ 2"
  shows "130 < rnd 11 (sqrt (rnd 10 (rnd 9 (
         rnd 6 (rnd 0 0.299 * rnd 3 ((real nr) ^ 2)) +
         rnd 7 (rnd 1 0.587 * rnd 4 ((real ng) ^ 2))) +
         rnd 8 (rnd 2 0.114 * rnd 5 ((real nb) ^ 2)))))"
proof -
  let ?s = "rnd 10 (rnd 9 (
         rnd 6 (rnd 0 0.299 * rnd 3 ((real nr) ^ 2)) +
         rnd 7 (rnd 1 0.587 * rnd 4 ((real ng) ^ 2))) +
         rnd 8 (rnd 2 0.114 * rnd 5 ((real nb) ^ 2)))"
  let ?N = "299 * nr ^ 2 + 587 * ng ^ 2 + 114 * nb ^ 2"
  let ?v = "real ?N / 1000"
  have ap: "approx 5 ?s ?v"
    using sum_approx [OF acc n] unfolding weighted_value .
  from above have "16900001 \<le> ?N" by simp
  then have "16900001 \<le> real ?N" by (simp only: of_nat_le_iff [symmetric, where ?'a = real] of_nat_numeral)
  then have v1: "16900001 / 1000 \<le> ?v" by simp
  have sq: "(real k) ^ 2 \<le> 2 ^ 64" if "k < 2 ^ 32" for k :: nat
    using square_range [OF that] by auto
  have "0.299 * (real nr) ^ 2 + 0.587 * (real ng) ^ 2 + 0.114 * (real nb) ^ 2 \<le> 2 ^ 64"
    using sq [OF n(1)] sq [OF n(2)] sq [OF n(3)] by simp
  then have v2: "?v \<le> 2 ^ 64" unfolding weighted_value .
  from v1 v2 have vr: "?v = 0 \<or> (1 / 10 \<le> ?v \<and> ?v \<le> 2 ^ 64)" by simp
  from ap have lo: "?v * lo_f ^ 5 \<le> ?s" by (simp add: approx_def)
  have l0: "0 \<le> lo_f ^ 5" using lo_f_pos by simp
  have "(130 / lo_f) ^ 2 < 16900001 / 1000 * lo_f ^ 5" by (simp add: lo_f_def power_divide)
  also have "\<dots> \<le> ?v * lo_f ^ 5" using v1 l0 by (rule mult_right_mono)
  finally have "(130 / lo_f) ^ 2 < ?s" using lo by simp
  then have "130 / lo_f < sqrt ?s" by (rule real_less_rsqrt)
  then have "130 < sqrt ?s * lo_f" using lo_f_pos by (simp add: pos_divide_less_eq)
  with sqrt_round [OF acc ap vr, of 11] show ?thesis by simp
qed

lemma isdark_below:
  assumes "accurate rnd"
    and "299 * (unat r) ^ 2 + 587 * (unat g) ^ 2 + 114 * (unat b) ^ 2 < 16900000"
  shows "isdark_fp rnd r g b a"
  unfolding isdark_fp_def weighted_sqrt_def
  using assms(2) unsigned_less [of r, where ?'a = nat] unsigned_less [of g, where ?'a = nat]
    unsigned_less [of b, where ?'a = nat]
  by (intro dark_below [OF assms(1)]) simp_all

lemma isdark_above:
  assumes "accurate rnd"
    and "16900000 < 299 * (unat r) ^ 2 + 587 * (unat g) ^ 2 + 114 * (unat b) ^ 2"
  shows "\<not> isdark_fp rnd r g b a"
proof -
  have "130 < weighted_sqrt rnd r g b"
    unfolding weighted_sqrt_def
    using assms(2) unsigned_less [of r, where ?'a = nat] unsigned_less [of g, where ?'a = nat]
      unsigned_less [of b, where ?'a = nat]
    by (intro light_above [OF assms(1)]) simp_all
  then show ?thesis by (simp add: isdark_fp_def)
qed

section \<open>The claims\<close>

text \<open>
  Claim C1. \<^verbatim>\<open>Draw\<close> returns the error \<^emph>\<open>invalid image size\<close> exactly when the image is not
  a \<^verbatim>\<open>*image.Uniform\<close> and the size of its bounds, as \<^verbatim>\<open>Rectangle.Size\<close> computes it on
  \<^verbatim>\<open>int\<close>, is not the panel's width by height, and then the world is left as it was: no
  pin is touched, nothing is transmitted, the busy line is not read. A uniform image of
  any color is never answered with the error, and on a busy line that always becomes
  free again \<^verbatim>\<open>Draw\<close> returns \<^verbatim>\<open>nil\<close> for it, the width being small enough for the column
  counter not to overflow.
\<close>

theorem Draw_size_error:
  "(Draw isdark e img w = Some (Some ErrInvalidImageSize, w') \<longleftrightarrow>
      \<not> is_Uniform img
      \<and> \<not> (X (Size (Bounds img)) = Width e \<and> Y (Size (Bounds img)) = Height e)
      \<and> w' = w)
   \<and> Draw isdark e (Uniform c) w \<noteq> Some (Some err, w')
   \<and> (Width e \<le> 2 ^ 63 - 8 \<longrightarrow> (\<forall>n. \<exists>m\<ge>n. busy_line w m \<noteq> 1) \<longrightarrow>
        (\<exists>w''. Draw isdark e (Uniform c) w = Some (None, w'')))"
proof (intro conjI impI)
  show "Draw isdark e img w = Some (Some ErrInvalidImageSize, w') \<longleftrightarrow>
      \<not> is_Uniform img
      \<and> \<not> (X (Size (Bounds img)) = Width e \<and> Y (Size (Bounds img)) = Height e)
      \<and> w' = w"
    by (rule Draw_error_iff)
  show "Draw isdark e (Uniform c) w \<noteq> Some (Some err, w')"
    by (simp add: Draw_error_iff)
  assume "Width e \<le> 2 ^ 63 - 8" and "\<forall>n. \<exists>m\<ge>n. busy_line w m \<noteq> 1"
  from Draw_returns [OF this(2)] obtain r where r: "Draw isdark e (Uniform c) w = Some r"
    by blast
  obtain err w'' where "r = (err, w'')" by (cases r)
  with r have "Draw isdark e (Uniform c) w = Some (None, w'')"
    by (cases err) (simp_all add: Draw_error_iff)
  then show "\<exists>w''. Draw isdark e (Uniform c) w = Some (None, w'')" by blast
qed

theorem Draw_size_error_witness:
  "Draw red_below_half small_panel
     (Raster \<lparr>Min_pt = \<lparr>X = 0, Y = 0\<rparr>, Max_pt = \<lparr>X = 128, Y = 296\<rparr>\<rparr> (\<lambda>x y. White)) quiet_world
     = Some (Some ErrInvalidImageSize, quiet_world)
   \<and> (\<exists>w''. Draw red_below_half small_panel (Uniform Black) quiet_world = Some (None, w''))
   \<and> Draw red_below_half (New 17 25 8 24 ())
     (Raster \<lparr>Min_pt = \<lparr>X = 9223372036854775807, Y = 0\<rparr>,
              Max_pt = \<lparr>X = - 9223372036854775681, Y = 296\<rparr>\<rparr> (\<lambda>x y. White)) quiet_world
     \<noteq> Some (Some ErrInvalidImageSize, quiet_world)"
proof -
  have live: "\<forall>n. \<exists>m\<ge>n. busy_line quiet_world m \<noteq> 1"
    by (auto simp add: quiet_world_def)
  from live Draw_size_error [of red_below_half small_panel
      "Raster \<lparr>Min_pt = \<lparr>X = 0, Y = 0\<rparr>, Max_pt = \<lparr>X = 128, Y = 296\<rparr>\<rparr> (\<lambda>x y. White)"
      quiet_world quiet_world Black ErrInvalidImageSize]
  have a: "Draw red_below_half small_panel
     (Raster \<lparr>Min_pt = \<lparr>X = 0, Y = 0\<rparr>, Max_pt = \<lparr>X = 128, Y = 296\<rparr>\<rparr> (\<lambda>x y. White)) quiet_world
     = Some (Some ErrInvalidImageSize, quiet_world)
   \<and> (\<exists>w''. Draw red_below_half small_panel (Uniform Black) quiet_world = Some (None, w''))"
    by (simp add: small_panel_def Size_def wrap64_def)
  from Draw_size_error [of red_below_half "New 17 25 8 24 ()"
      "Raster \<lparr>Min_pt = \<lparr>X = 9223372036854775807, Y = 0\<rparr>,
              Max_pt = \<lparr>X = - 9223372036854775681, Y = 296\<rparr>\<rparr> (\<lambda>x y. White)"
      quiet_world quiet_world Black ErrInvalidImageSize]
  have b: "Draw red_below_half (New 17 25 8 24 ())
     (Raster \<lparr>Min_pt = \<lparr>X = 9223372036854775807, Y = 0\<rparr>,
              Max_pt = \<lparr>X = - 9223372036854775681, Y = 296\<rparr>\<rparr> (\<lambda>x y. White)) quiet_world
     \<noteq> Some (Some ErrInvalidImageSize, quiet_world)"
    by (simp add: New_def Size_def wrap64_def)
  from a b show ?thesis by simp
qed

text \<open>
  Claim C2. Let the image be uniform or of the panel's size, and the panel's width a
  positive multiple of 8 that fits the one-byte x coordinate. On a busy line that
  always becomes free again \<^verbatim>\<open>Draw\<close> returns. Whenever it returns, it returns \<^verbatim>\<open>nil\<close> and
  has added to the trace, in this order: the window from 0 to width - 1 and from 0 to
  height - 1 (command 0x44 with the x bytes, command 0x45 with the two y coordinates,
  low byte first); for each row \<open>i\<close> from 0 to height - 1 the cursor at \<open>(0, i)\<close>
  (commands 0x4E and 0x4F), a busy wait, the command 0x24 and width / 8 data bytes; then
  command 0x22 with data 0xC4, command 0x20, command 0xFF and a busy wait. Each busy
  wait ends with a read other than 1; how often it polled before is \<open>fst (polls i)\<close>.
\<close>

theorem Draw_sequence:
  assumes "is_Uniform img \<or> (X (Size (Bounds img)) = Width e \<and> Y (Size (Bounds img)) = Height e)"
    and "0 < Width e" and "Width e \<le> 256" and "8 dvd Width e"
  shows "((\<forall>n. \<exists>m\<ge>n. busy_line w m \<noteq> 1) \<longrightarrow> (\<exists>r. Draw isdark e img w = Some r))
   \<and> (\<forall>r. Draw isdark e img w = Some r \<longrightarrow>
        (\<exists>polls. (\<forall>i. snd (polls i) \<noteq> 1) \<and> fst r = None \<and>
           trace (snd r) = trace w @
             command_frame e 0x44 @ data_frame e 0 @ data_frame e (of_int ((Width e - 1) div 8)) @
             command_frame e 0x45 @ data_frame e 0 @ data_frame e 0 @
             data_frame e (of_int (Height e - 1)) @ data_frame e (of_int ((Height e - 1) div 256)) @
             concat (map (\<lambda>i.
                 command_frame e 0x4E @ data_frame e 0 @ command_frame e 0x4F @
                 data_frame e (of_nat i) @ data_frame e (of_nat (i div 256)) @
                 idle_wait e (fst (polls i)) (snd (polls i)) @
                 command_frame e 0x24 @
                 concat (map (\<lambda>c. data_frame e
                                (of_int (pixels isdark img (int i) (8 * int c) 0 0xFF)))
                             [0..<nat (Width e div 8)]))
               [0..<nat (Height e)]) @
             command_frame e 0x22 @ data_frame e 0xC4 @ command_frame e 0x20 @
             command_frame e 0xFF @
             idle_wait e (fst (polls (nat (Height e)))) (snd (polls (nat (Height e))))))"
  using Draw_returns [of w isdark e img] Draw_Some [OF assms, of isdark w] by blast

theorem Draw_sequence_witness:
  "\<exists>r. Draw red_below_half small_panel (Uniform Black) quiet_world = Some r \<and> fst r = None \<and>
     transmitted (trace (snd r)) =
       [0x44, 0x00, 0x00, 0x45, 0x00, 0x00, 0x01, 0x00,
        0x4E, 0x00, 0x4F, 0x00, 0x00, 0x24, 0x00,
        0x4E, 0x00, 0x4F, 0x01, 0x00, 0x24, 0x00,
        0x22, 0xC4, 0x20, 0xFF]"
proof -
  have ok: "is_Uniform (Uniform Black) \<or>
      (X (Size (Bounds (Uniform Black))) = Width small_panel \<and>
       Y (Size (Bounds (Uniform Black))) = Height small_panel)"
    by simp
  have W: "0 < Width small_panel" "Width small_panel \<le> 256" "8 dvd Width small_panel"
    by (simp_all add: small_panel_def)
  have live: "\<forall>n. \<exists>m\<ge>n. busy_line quiet_world m \<noteq> 1"
    by (auto simp add: quiet_world_def)
  note D = Draw_sequence [OF ok W, of quiet_world red_below_half]
  from D live obtain r where r: "Draw red_below_half small_panel (Uniform Black) quiet_world = Some r"
    by blast
  have rows2: "[0..<nat (Height small_panel)] = [0, 1]"
    by (simp add: small_panel_def upt_rec)
  have cols1: "[0..<nat (Width small_panel div 8)] = [0]"
    by (simp add: small_panel_def)
  have dark: "(case color_RGBA Black of (r, g, b, a) \<Rightarrow> red_below_half r g b a)"
    by (simp add: Black_def red_below_half_def)
  from D r obtain polls where "fst r = None" and
    "trace (snd r) = trace quiet_world @
       command_frame small_panel 0x44 @ data_frame small_panel 0 @
       data_frame small_panel (of_int ((Width small_panel - 1) div 8)) @
       command_frame small_panel 0x45 @ data_frame small_panel 0 @ data_frame small_panel 0 @
       data_frame small_panel (of_int (Height small_panel - 1)) @
       data_frame small_panel (of_int ((Height small_panel - 1) div 256)) @
       concat (map (\<lambda>i. row_frames red_below_half small_panel (Uniform Black) i (polls i))
               [0..<nat (Height small_panel)]) @
       command_frame small_panel 0x22 @ data_frame small_panel 0xC4 @
       command_frame small_panel 0x20 @ command_frame small_panel 0xFF @
       idle_wait small_panel (fst (polls (nat (Height small_panel))))
         (snd (polls (nat (Height small_panel))))"
    by blast
  then have "fst r = None \<and> transmitted (trace (snd r)) =
       [0x44, 0x00, 0x00, 0x45, 0x00, 0x00, 0x01, 0x00,
        0x4E, 0x00, 0x4F, 0x00, 0x00, 0x24, 0x00,
        0x4E, 0x00, 0x4F, 0x01, 0x00, 0x24, 0x00,
        0x22, 0xC4, 0x20, 0xFF]"
    unfolding rows2 cols1
    by (simp add: transmitted_append transmitted_command_frame transmitted_data_frame
        transmitted_idle_wait uniform_byte dark)
      (simp add: small_panel_def quiet_world_def)
  with r show ?thesis by blast
qed

text \<open>
  Claim C3. Under the hypotheses of C2, the bytes \<^verbatim>\<open>Draw\<close> transmits are those of the
  window, then for each row \<open>i\<close> the bytes of the cursor, 0x24 and one data byte for each
  group of eight pixels, from left to right, then 0x22, 0xC4, 0x20, 0xFF. The data byte
  for the columns \<open>j\<close> to \<open>j + 7\<close> of row \<open>i\<close> is built from 0xFF: its bit \<open>7 - px\<close> is 0
  exactly when the pixel at column \<open>j + px\<close> is classified dark, and 1 otherwise. The
  leftmost pixel is the most significant bit, 1 is white and 0 is black.
\<close>

theorem Draw_byte_encoding:
  assumes "is_Uniform img \<or> (X (Size (Bounds img)) = Width e \<and> Y (Size (Bounds img)) = Height e)"
    and "0 < Width e" and "Width e \<le> 256" and "8 dvd Width e"
  shows "((\<forall>n. \<exists>m\<ge>n. busy_line w m \<noteq> 1) \<longrightarrow> (\<exists>r. Draw isdark e img w = Some r))
   \<and> (\<forall>r. Draw isdark e img w = Some r \<longrightarrow>
        transmitted (trace (snd r)) = transmitted (trace w) @
          [0x44, 0, of_int ((Width e - 1) div 8),
           0x45, 0, 0, of_int (Height e - 1), of_int ((Height e - 1) div 256)] @
          concat (map (\<lambda>i.
              [0x4E, 0, 0x4F, of_nat i, of_nat (i div 256), 0x24] @
              map (\<lambda>c. of_int (pixels isdark img (int i) (8 * int c) 0 0xFF))
                  [0..<nat (Width e div 8)])
            [0..<nat (Height e)]) @
          [0x22, 0xC4, 0x20, 0xFF])
   \<and> (\<forall>i j px. px < 8 \<longrightarrow>
        (bit (of_int (pixels isdark img i j 0 0xFF) :: u8) (7 - px) \<longleftrightarrow>
           \<not> (case color_RGBA (At img (j + int px) i) of (r, g, b, a) \<Rightarrow> isdark r g b a)))"
proof (intro conjI allI impI)
  assume "\<forall>n. \<exists>m\<ge>n. busy_line w m \<noteq> 1"
  then show "\<exists>r. Draw isdark e img w = Some r" by (rule Draw_returns)
next
  fix r
  assume "Draw isdark e img w = Some r"
  from Draw_Some [OF assms this] obtain polls where
    "trace (snd r) = trace w @
       command_frame e 0x44 @ data_frame e 0 @ data_frame e (of_int ((Width e - 1) div 8)) @
       command_frame e 0x45 @ data_frame e 0 @ data_frame e 0 @
       data_frame e (of_int (Height e - 1)) @ data_frame e (of_int ((Height e - 1) div 256)) @
       concat (map (\<lambda>i. row_frames isdark e img i (polls i)) [0..<nat (Height e)]) @
       command_frame e 0x22 @ data_frame e 0xC4 @ command_frame e 0x20 @ command_frame e 0xFF @
       idle_wait e (fst (polls (nat (Height e)))) (snd (polls (nat (Height e))))"
    by blast
  then show "transmitted (trace (snd r)) = transmitted (trace w) @
          [0x44, 0, of_int ((Width e - 1) div 8),
           0x45, 0, 0, of_int (Height e - 1), of_int ((Height e - 1) div 256)] @
          concat (map (\<lambda>i.
              [0x4E, 0, 0x4F, of_nat i, of_nat (i div 256), 0x24] @
              map (\<lambda>c. of_int (pixels isdark img (int i) (8 * int c) 0 0xFF))
                  [0..<nat (Width e div 8)])
            [0..<nat (Height e)]) @
          [0x22, 0xC4, 0x20, 0xFF]"
    by (simp add: transmitted_append transmitted_command_frame transmitted_data_frame
        transmitted_idle_wait transmitted_rows transmitted_data_map del: of_int_diff)
next
  fix i j :: int and px :: nat
  assume "px < 8"
  then show "bit (of_int (pixels isdark img i j 0 0xFF) :: u8) (7 - px) \<longleftrightarrow>
           \<not> (case color_RGBA (At img (j + int px) i) of (r, g, b, a) \<Rightarrow> isdark r g b a)"
    using byte_bit [of px isdark img i j] by (simp add: dark_at_def)
qed

theorem Draw_byte_encoding_witness:
  "\<exists>r. Draw red_below_half small_panel
       (Raster \<lparr>Min_pt = \<lparr>X = 0, Y = 0\<rparr>, Max_pt = \<lparr>X = 8, Y = 2\<rparr>\<rparr>
          (\<lambda>x y. if y = 0 \<and> (x = 0 \<or> x = 2) \<or> y = 1 \<and> x = 7 then Black else White))
       quiet_world = Some r \<and>
     transmitted (trace (snd r)) =
       [0x44, 0x00, 0x00, 0x45, 0x00, 0x00, 0x01, 0x00,
        0x4E, 0x00, 0x4F, 0x00, 0x00, 0x24, 0x5F,
        0x4E, 0x00, 0x4F, 0x01, 0x00, 0x24, 0xFE,
        0x22, 0xC4, 0x20, 0xFF]"
proof -
  let ?img = "Raster \<lparr>Min_pt = \<lparr>X = 0, Y = 0\<rparr>, Max_pt = \<lparr>X = 8, Y = 2\<rparr>\<rparr>
          (\<lambda>x y. if y = 0 \<and> (x = 0 \<or> x = 2) \<or> y = 1 \<and> x = 7 then Black else White)"
  have ok: "is_Uniform ?img \<or>
      (X (Size (Bounds ?img)) = Width small_panel \<and> Y (Size (Bounds ?img)) = Height small_panel)"
    by (simp add: Size_def wrap64_def small_panel_def)
  have W: "0 < Width small_panel" "Width small_panel \<le> 256" "8 dvd Width small_panel"
    by (simp_all add: small_panel_def)
  have live: "\<forall>n. \<exists>m\<ge>n. busy_line quiet_world m \<noteq> 1"
    by (auto simp add: quiet_world_def)
  note D = Draw_byte_encoding [OF ok W, of quiet_world red_below_half]
  from D live obtain r where r: "Draw red_below_half small_panel ?img quiet_world = Some r"
    by blast
  have rows2: "[0..<nat (Height small_panel)] = [0, 1]"
    by (simp add: small_panel_def upt_rec)
  have cols1: "[0..<nat (Width small_panel div 8)] = [0]"
    by (simp add: small_panel_def)
  from D r have "transmitted (trace (snd r)) = transmitted (trace quiet_world) @
          [0x44, 0, of_int ((Width small_panel - 1) div 8),
           0x45, 0, 0, of_int (Height small_panel - 1), of_int ((Height small_panel - 1) div 256)] @
          concat (map (\<lambda>i.
              [0x4E, 0, 0x4F, of_nat i, of_nat (i div 256), 0x24] @
              map (\<lambda>c. of_int (pixels red_below_half ?img (int i) (8 * int c) 0 0xFF))
                  [0..<nat (Width small_panel div 8)])
            [0..<nat (Height small_panel)]) @
          [0x22, 0xC4, 0x20, 0xFF]"
    by blast
  then have "transmitted (trace (snd r)) =
       [0x44, 0x00, 0x00, 0x45, 0x00, 0x00, 0x01, 0x00,
        0x4E, 0x00, 0x4F, 0x00, 0x00, 0x24, 0x5F,
        0x4E, 0x00, 0x4F, 0x01, 0x00, 0x24, 0xFE,
        0x22, 0xC4, 0x20, 0xFF]"
    unfolding rows2 cols1
    by (simp add: pattern_bytes) (simp add: small_panel_def quiet_world_def)
  with r show ?thesis by blast
qed

text \<open>
  Claim C4. The classification does not depend on the alpha sample, and a pixel is dark
  exactly when the computed value is at most 130. With roundings of a relative error of
  at most \<open>2 ^ - 40\<close>, every pixel with \<open>299 r\<^sup>2 + 587 g\<^sup>2 + 114 b\<^sup>2\<close> below 16900000, that
  is with a weighted root below 130, is dark, and every pixel with more is not: (0, 0, 0)
  is dark, (65535, 65535, 65535) is not, (130, 130, 129) is and (130, 130, 131) is not.
\<close>

theorem isdark_threshold:
  assumes "accurate rnd"
  shows "(isdark_fp rnd r g b a \<longleftrightarrow> weighted_sqrt rnd r g b \<le> 130)
   \<and> isdark_fp rnd r g b a' = isdark_fp rnd r g b a
   \<and> (299 * (unat r) ^ 2 + 587 * (unat g) ^ 2 + 114 * (unat b) ^ 2 < 16900000
        \<longrightarrow> isdark_fp rnd r g b a)
   \<and> (16900000 < 299 * (unat r) ^ 2 + 587 * (unat g) ^ 2 + 114 * (unat b) ^ 2
        \<longrightarrow> \<not> isdark_fp rnd r g b a)
   \<and> isdark_fp rnd 0 0 0 a
   \<and> \<not> isdark_fp rnd 65535 65535 65535 a
   \<and> isdark_fp rnd 130 130 129 a
   \<and> \<not> isdark_fp rnd 130 130 131 a"
proof (intro conjI impI)
  show "isdark_fp rnd r g b a \<longleftrightarrow> weighted_sqrt rnd r g b \<le> 130"
    by (simp add: isdark_fp_def)
  show "isdark_fp rnd r g b a' = isdark_fp rnd r g b a"
    by (simp add: isdark_fp_def)
  show "isdark_fp rnd r g b a"
    if "299 * (unat r) ^ 2 + 587 * (unat g) ^ 2 + 114 * (unat b) ^ 2 < 16900000"
    using assms that by (rule isdark_below)
  show "\<not> isdark_fp rnd r g b a"
    if "16900000 < 299 * (unat r) ^ 2 + 587 * (unat g) ^ 2 + 114 * (unat b) ^ 2"
    using assms that by (rule isdark_above)
  show "isdark_fp rnd 0 0 0 a"
    using assms by (rule isdark_below) simp
  show "\<not> isdark_fp rnd 65535 65535 65535 a"
    using assms by (rule isdark_above) simp
  show "isdark_fp rnd 130 130 129 a"
    using assms by (rule isdark_below) simp
  show "\<not> isdark_fp rnd 130 130 131 a"
    using assms by (rule isdark_above) simp
qed

theorem isdark_threshold_witness:
  "accurate (\<lambda>n x. x)
   \<and> isdark_fp (\<lambda>n x. x) 129 129 129 0xffff
   \<and> \<not> isdark_fp (\<lambda>n x. x) 131 131 131 0xffff
   \<and> isdark_fp (\<lambda>n x. x) 0 0 0 0xffff
   \<and> \<not> isdark_fp (\<lambda>n x. x) 65535 65535 65535 0xffff"
proof -
  have acc: "accurate (\<lambda>n x. x)" by (simp add: accurate_def)
  note below = isdark_threshold [OF acc, of 129 129 129 "0xffff" "0xffff",
      THEN conjunct2, THEN conjunct2, THEN conjunct1]
  note above = isdark_threshold [OF acc, of 131 131 131 "0xffff" "0xffff",
      THEN conjunct2, THEN conjunct2, THEN conjunct2, THEN conjunct1]
  note black = isdark_threshold [OF acc, of 0 0 0 "0xffff" "0xffff",
      THEN conjunct2, THEN conjunct2, THEN conjunct2, THEN conjunct2, THEN conjunct1]
  note white = isdark_threshold [OF acc, of 0 0 0 "0xffff" "0xffff",
      THEN conjunct2, THEN conjunct2, THEN conjunct2, THEN conjunct2, THEN conjunct2,
      THEN conjunct1]
  from below have a: "isdark_fp (\<lambda>n x. x) 129 129 129 0xffff" by simp
  from above have b: "\<not> isdark_fp (\<lambda>n x. x) 131 131 131 0xffff" by simp
  from black have c: "isdark_fp (\<lambda>n x. x) 0 0 0 0xffff" .
  from white have d: "\<not> isdark_fp (\<lambda>n x. x) 65535 65535 65535 0xffff" .
  from acc a b c d show ?thesis by simp
qed

text \<open>
  Claim C5. \<^verbatim>\<open>Clear\<close> compares its argument with the value \<^verbatim>\<open>color.White\<close>, a \<^verbatim>\<open>Gray16\<close>.
  The color \<^verbatim>\<open>color.RGBA{0xff, 0xff, 0xff, 0xff}\<close> is white, its samples are those of
  \<^verbatim>\<open>color.White\<close>, but it is a value of another type: \<^verbatim>\<open>Clear\<close> draws the black uniform
  image for it, whose data bytes are all 0x00 when black is classified dark.
\<close>

theorem Clear_white_RGBA:
  "color_RGBA (RGBA 0xff 0xff 0xff 0xff) = color_RGBA White
   \<and> Clear isdark e (RGBA 0xff 0xff 0xff 0xff) w =
       (case Draw isdark e (Uniform (Gray16 0)) w of None \<Rightarrow> None | Some (err, w') \<Rightarrow> Some w')
   \<and> (of_int (pixels isdark (Uniform (Gray16 0)) i j 0 0xFF) :: u8) =
       (if isdark 0 0 0 0xffff then 0x00 else 0xFF)"
  by (simp add: Clear_def White_def Black_def image_Black_def uniform_byte)

text \<open>
  What \<^verbatim>\<open>Clear\<close> does for every color: it draws the white uniform image for the value
  \<^verbatim>\<open>color.White\<close> and the black one for every other value, and it drops the error.
\<close>

lemma Clear_dispatch:
  "Clear isdark e c w =
     (case Draw isdark e (if c = Gray16 0xffff then Uniform (Gray16 0xffff) else Uniform (Gray16 0)) w of
        None \<Rightarrow> None
      | Some (err, w') \<Rightarrow> Some w')
   \<and> (\<forall>w'. Clear isdark e c w = Some w' \<longleftrightarrow> (\<exists>err. Draw isdark e (if c = Gray16 0xffff then Uniform (Gray16 0xffff) else Uniform (Gray16 0)) w = Some (err, w')))"
  by (auto simp add: Clear_def White_def Black_def image_Black_def image_White_def split: option.splits)

text \<open>
  Claim C6. The bytes transmitted by \<^verbatim>\<open>Mode(FullUpdate)\<close> and by \<^verbatim>\<open>Mode(PartialUpdate)\<close>
  are the same seventeen bytes followed by the lookup table of the mode; the two tables
  have 30 bytes each and differ.
\<close>

theorem Mode_tables:
  "transmitted (trace (Mode e FullUpdate w)) =
     transmitted (trace w) @
     [0x01, of_int (Height e - 1), of_int ((Height e - 1) div 256), 0x00,
      0x0C, 0xD7, 0xD6, 0x9D, 0x2C, 0xA8, 0x3A, 0x1A, 0x3B, 0x08, 0x11, 0x03, 0x32] @
     fullUpdate
   \<and> transmitted (trace (Mode e PartialUpdate w)) =
     transmitted (trace w) @
     [0x01, of_int (Height e - 1), of_int ((Height e - 1) div 256), 0x00,
      0x0C, 0xD7, 0xD6, 0x9D, 0x2C, 0xA8, 0x3A, 0x1A, 0x3B, 0x08, 0x11, 0x03, 0x32] @
     partialUpdate
   \<and> length fullUpdate = 30 \<and> length partialUpdate = 30 \<and> fullUpdate \<noteq> partialUpdate"
proof -
  have "FullUpdate \<noteq> PartialUpdate" by (simp add: FullUpdate_def PartialUpdate_def)
  then show ?thesis
    unfolding Mode_emits emits_fields transmitted_append transmitted_command_frame
      transmitted_data_frame
    by (simp add: transmitted_data_frames del: of_int_diff)
      (simp add: fullUpdate_def partialUpdate_def)
qed

text \<open>
  Claim C7. \<^verbatim>\<open>Mode\<close> performs, in this order: the reset pulse; command 0x01 with the low
  and the high byte of height - 1 and the byte 0x00; command 0x0C with 0xD7, 0xD6, 0x9D;
  command 0x2C with 0xA8; command 0x3A with 0x1A; command 0x3B with 0x08; command 0x11
  with 0x03; command 0x32 with the 30 bytes of the table the mode selects. It reads
  nothing from the busy line.
\<close>

theorem Mode_sequence:
  "Mode e mode w = w\<lparr>trace := trace w @
      [High (rst e), TimeSleep 200, Low (rst e), TimeSleep 10, High (rst e), TimeSleep 200] @
      command_frame e 0x01 @ data_frame e (of_int (Height e - 1)) @
      data_frame e (of_int ((Height e - 1) div 256)) @ data_frame e 0x00 @
      command_frame e 0x0C @ data_frame e 0xD7 @ data_frame e 0xD6 @ data_frame e 0x9D @
      command_frame e 0x2C @ data_frame e 0xA8 @
      command_frame e 0x3A @ data_frame e 0x1A @
      command_frame e 0x3B @ data_frame e 0x08 @
      command_frame e 0x11 @ data_frame e 0x03 @
      command_frame e 0x32 @
      concat (map (data_frame e) (if mode = PartialUpdate then partialUpdate else fullUpdate))\<rparr>
   \<and> uint (of_int (Height e - 1) :: u8) + 256 * uint (of_int ((Height e - 1) div 256) :: u8)
       = (Height e - 1) mod 65536
   \<and> length fullUpdate = 30 \<and> length partialUpdate = 30"
  unfolding Mode_emits emits_def little_endian_int
  by (simp add: fullUpdate_def partialUpdate_def)

text \<open>
  Claim C8. For all arguments \<^verbatim>\<open>window\<close> adds exactly: command 0x44, the data bytes
  \<open>x0 >> 3\<close> and \<open>x1 >> 3\<close>, command 0x45, and the data bytes of \<open>y0\<close> and of \<open>y1\<close>, the
  low byte before the high byte.
\<close>

theorem window_sequence:
  "window e x0 x1 y0 y1 w = w\<lparr>trace := trace w @
      command_frame e 0x44 @ data_frame e (drop_bit 3 x0) @ data_frame e (drop_bit 3 x1) @
      command_frame e 0x45 @ data_frame e (ucast y0) @ data_frame e (ucast (drop_bit 8 y0)) @
      data_frame e (ucast y1) @ data_frame e (ucast (drop_bit 8 y1))\<rparr>
   \<and> unat (drop_bit 3 x0) = unat x0 div 8 \<and> unat (drop_bit 3 x1) = unat x1 div 8
   \<and> unat (ucast y0 :: u8) + 256 * unat (ucast (drop_bit 8 y0) :: u8) = unat y0
   \<and> unat (ucast y1 :: u8) + 256 * unat (ucast (drop_bit 8 y1) :: u8) = unat y1"
  unfolding window_emits le16 shift3 by (simp add: emits_def)

text \<open>
  Claim C9. \<^verbatim>\<open>Sleep\<close> adds exactly one command frame with the byte 0x10 and one data
  frame with the byte 0x01; the busy line is not read.
\<close>

theorem Sleep_sequence:
  "Sleep e w = w\<lparr>trace := trace w @
      [Low (dc e), Low (cs e), Transmit (transmit e) [0x10], High (cs e),
       High (dc e), Low (cs e), Transmit (transmit e) [0x01], High (cs e)]\<rparr>
   \<and> reads (Sleep e w) = reads w
   \<and> transmitted (trace (Sleep e w)) = transmitted (trace w) @ [0x10, 0x01]"
  by (simp add: Sleep_def command_def data_def emit_def transmitted_append)

text \<open>
  Claim C10. Whatever pins and transmitter \<^verbatim>\<open>New\<close> is given, the driver it returns is 128
  pixels wide and 296 pixels high; the width is a multiple of 8.
\<close>

theorem New_geometry:
  "Width (New rst_pin dc_pin cs_pin busy_pin transmit_fn) = 128
   \<and> Height (New rst_pin dc_pin cs_pin busy_pin transmit_fn) = 296
   \<and> 8 dvd Width (New rst_pin dc_pin cs_pin busy_pin transmit_fn)"
  by (simp add: New_def)

end
